theory Spec2Isabelle
  imports Complex_Main "HOL-Library.Multiset"
begin

section \<open>The graph IR that the quantization passes rewrite\<close>

text \<open>
  The passes of \<^verbatim>\<open>torch/csrc/jit/passes/quantization.cpp\<close> work on the JIT graph IR
  through pointers \<^verbatim>\<open>Node*\<close>, \<^verbatim>\<open>Value*\<close> and \<^verbatim>\<open>Block*\<close>. A pointer to a node or
  to a value is an index into a store of node records and value records; the nesting of
  blocks inside nodes is a tree, that holds the order of the nodes of every block.
\<close>

type_synonym nid = nat
type_synonym vid = nat

text \<open>
  The types of values. \<^verbatim>\<open>jit_type.h\<close> is not among the sources. The tensor types are
  the type \<^verbatim>\<open>Tensor\<close> of \<^verbatim>\<open>TensorType::get()\<close> and its refinements, a tensor of a known
  number of dimensions and a tensor of known sizes.
\<close>

datatype ty =
  TensorType | DimensionedTensorType nat | CompleteTensorType "nat list"
  | FloatType | IntType | BoolType | StringType | NoneType

text \<open>Modelled from the spec: \<^verbatim>\<open>v->type()->isSubtypeOf(TensorType::get())\<close>, the tensor
  subtype check: the type is \<^verbatim>\<open>Tensor\<close> or one of its refinements.\<close>

definition isSubtypeOfTensor :: "ty \<Rightarrow> bool" where
  "isSubtypeOfTensor t =
     (case t of TensorType \<Rightarrow> True | DimensionedTensorType d \<Rightarrow> True
      | CompleteTensorType sizes \<Rightarrow> True | _ \<Rightarrow> False)"

datatype ivalue = IDouble real | IInt int | IString string

record node =
  kind :: string
  inputs :: "vid list"
  outputs :: "vid list"
  scope :: string
  attr :: "ivalue option"

record val =
  node_of :: nid
  type_of :: ty
  unique_name :: "string option"

text \<open>
  A block is the parameter node that produces its inputs, the ordered list
  \<^verbatim>\<open>b->nodes()\<close> and the return node whose inputs are \<^verbatim>\<open>b->outputs()\<close>; a node of the
  list carries its sub-blocks \<^verbatim>\<open>n->blocks()\<close>.
\<close>

datatype ntree = NT (nt_id: nid) (nt_blocks: "blk list")
  and blk = Blk (param_node: nid) (blk_nodes: "ntree list") (return_node: nid)

record graph =
  block :: blk
  nodes :: "nid \<Rightarrow> node"
  vals :: "vid \<Rightarrow> val"
  next_node :: nat
  next_unique :: nat

datatype error = AssertionFailure | RuntimeError string

type_synonym 'a res = "(error + 'a) \<times> graph"

text \<open>Sequencing of two steps on the graph: a failure of the first one ends the pass, with
  the graph as it is at that point.\<close>

definition andThen :: "(graph \<Rightarrow> 'a res) \<Rightarrow> ('a \<Rightarrow> graph \<Rightarrow> 'b res) \<Rightarrow> graph \<Rightarrow> 'b res" where
  "andThen m f g = (case m g of (Inl e, g') \<Rightarrow> (Inl e, g') | (Inr x, g') \<Rightarrow> f x g')"

text \<open>A loop \<^verbatim>\<open>for (auto& ele : xs) body(ele);\<close> whose body may fail.\<close>

fun forEach :: "('a \<Rightarrow> graph \<Rightarrow> unit res) \<Rightarrow> 'a list \<Rightarrow> graph \<Rightarrow> unit res" where
  "forEach body [] g = (Inr (), g)"
| "forEach body (x # xs) g =
     (case body x g of (Inl e, g') \<Rightarrow> (Inl e, g') | (Inr u, g') \<Rightarrow> forEach body xs g')"

subsection \<open>The node lists of the block tree\<close>

fun ids_n :: "ntree \<Rightarrow> nid list" and ids_b :: "blk \<Rightarrow> nid list" where
  "ids_n (NT n bs) = n # concat (map ids_b bs)"
| "ids_b (Blk p ts r) = concat (map ids_n ts)"

text \<open>The blocks of the tree, each as the list of its nodes with its return node.\<close>

fun lists_n :: "ntree \<Rightarrow> (nid list \<times> nid) list"
  and lists_b :: "blk \<Rightarrow> (nid list \<times> nid) list" where
  "lists_n (NT n bs) = concat (map lists_b bs)"
| "lists_b (Blk p ts r) = (map nt_id ts, r) # concat (map lists_n ts)"

text \<open>\<^verbatim>\<open>n->inBlockList()\<close>: the node is linked into the node list of a block. The list of
  a block is circular and closed by the return node of the block, which is linked too;
  the parameter node is not.\<close>

definition linked :: "blk \<Rightarrow> nid \<Rightarrow> bool" where
  "linked b n = list_ex (\<lambda>lr. n \<in> set (fst lr) \<or> n = snd lr) (lists_b b)"

definition inBlockList :: "graph \<Rightarrow> nid \<Rightarrow> bool" where
  "inBlockList g n = linked (block g) n"

text \<open>\<^verbatim>\<open>a->next() == x\<close> for two nodes of a block: \<open>x\<close> is linked immediately after
  \<open>a\<close>.\<close>

fun follows_l :: "nid \<Rightarrow> nid \<Rightarrow> nid list \<Rightarrow> bool" where
  "follows_l a x [] = False"
| "follows_l a x [y] = False"
| "follows_l a x (y # z # l) = ((y = a \<and> z = x) \<or> follows_l a x (z # l))"

definition adjacent :: "blk \<Rightarrow> nid \<Rightarrow> nid \<Rightarrow> bool" where
  "adjacent b a x = list_ex (\<lambda>lr. follows_l a x (fst lr)) (lists_b b)"


text \<open>Linking node \<open>x\<close> after node \<open>a\<close>; after the return node is the head of the list.\<close>

fun linkAfter_n :: "nid \<Rightarrow> nid \<Rightarrow> ntree \<Rightarrow> ntree"
  and linkAfter_b :: "nid \<Rightarrow> nid \<Rightarrow> blk \<Rightarrow> blk" where
  "linkAfter_n x a (NT n bs) = NT n (map (linkAfter_b x a) bs)"
| "linkAfter_b x a (Blk p ts r) =
     Blk p ((if r = a then [NT x []] else []) @
            concat (map (\<lambda>t. if nt_id t = a then [linkAfter_n x a t, NT x []]
                              else [linkAfter_n x a t]) ts)) r"

text \<open>Linking node \<open>x\<close> before node \<open>a\<close>; before the return node is the end of the list.\<close>

fun linkBefore_n :: "nid \<Rightarrow> nid \<Rightarrow> ntree \<Rightarrow> ntree"
  and linkBefore_b :: "nid \<Rightarrow> nid \<Rightarrow> blk \<Rightarrow> blk" where
  "linkBefore_n x a (NT n bs) = NT n (map (linkBefore_b x a) bs)"
| "linkBefore_b x a (Blk p ts r) =
     Blk p (concat (map (\<lambda>t. if nt_id t = a then [NT x [], linkBefore_n x a t]
                              else [linkBefore_n x a t]) ts) @
            (if r = a then [NT x []] else [])) r"

subsection \<open>The operations of the IR library used by the passes\<close>

text \<open>
  \<^verbatim>\<open>ir.h\<close> and \<^verbatim>\<open>operator.h\<close> are not among the sources. The operations below are
  modelled after the interface the specification lists in its section on external
  interfaces (node creation by operator identity, cloning, input append and replace, value
  naming, constant insertion at a cursor, replacing all uses of a value, the tensor
  subtype check), with the bookkeeping of the IR written out: a new node or value takes the
  next free index of its store.
\<close>

definition digit :: "nat \<Rightarrow> char" where
  "digit n = char_of (48 + n)"

function string_of_nat :: "nat \<Rightarrow> string" where
  "string_of_nat n =
     (if n < 10 then [digit n] else string_of_nat (n div 10) @ [digit (n mod 10)])"
  by pat_completeness auto
termination
  by (relation "measure (\<lambda>n. n)") auto

declare string_of_nat.simps [simp del]

text \<open>Modelled from the spec: \<^verbatim>\<open>Value::uniqueName\<close>, the name of the value, which is its
  number when no name was set.\<close>

definition uniqueName :: "graph \<Rightarrow> vid \<Rightarrow> string" where
  "uniqueName g v = (case unique_name (vals g v) of Some s \<Rightarrow> s | None \<Rightarrow> string_of_nat v)"

text \<open>
  Modelled from the spec: \<^verbatim>\<open>Value::setUniqueName\<close>. The names of the values of a graph
  are unique. The value gives up the name it has; when another value holds the new name,
  that value is renamed first, to \<^verbatim>\<open>name_base.suffix\<close> for the first suffix that gives a
  free name. The name base and the first suffix are the name and 1, or, for a name that
  ends in a dot and digits, the name before that dot and the number after it. The check
  that the name is no number (\<^verbatim>\<open>isValidName\<close>) is not modelled: the passes set names of
  values, or names that end in \<^verbatim>\<open>.quant\<close>, \<^verbatim>\<open>.dequant\<close> or \<^verbatim>\<open>.observed\<close>.
\<close>

text \<open>The value that holds a name, which is the entry of the name in the map
  \<^verbatim>\<open>unique_names_\<close> of the graph.\<close>

definition nameOwner :: "graph \<Rightarrow> string \<Rightarrow> vid option" where
  "nameOwner g name = find (\<lambda>x. unique_name (vals g x) = Some name) [0..<next_unique g]"

text \<open>The name \<^verbatim>\<open>name_base << "." << suffix\<close>.\<close>

definition candidate :: "string \<Rightarrow> nat \<Rightarrow> string" where
  "candidate name_base suffix = name_base @ ''.'' @ string_of_nat suffix"

lemma digit_inj: "m < 10 \<Longrightarrow> n < 10 \<Longrightarrow> digit m = digit n \<Longrightarrow> m = n"
proof -
  assume a: "m < 10" "n < 10" "digit m = digit n"
  have "of_char (digit k) = 48 + k" if "k < 10" for k :: nat
    using that by (simp add: digit_def of_char_of)
  with a show ?thesis
    by (metis add_left_cancel)
qed

lemma string_of_nat_length: "0 < length (string_of_nat n)"
  by (subst string_of_nat.simps) simp

lemma string_of_nat_inj: "string_of_nat m = string_of_nat n \<Longrightarrow> m = n"
proof (induction m arbitrary: n rule: string_of_nat.induct)
  case (1 m)
  show ?case
  proof (cases "m < 10")
    case True
    then have m: "string_of_nat m = [digit m]"
      by (subst string_of_nat.simps) simp
    have n: "n < 10"
    proof (rule ccontr)
      assume "\<not> n < 10"
      then have "string_of_nat n = string_of_nat (n div 10) @ [digit (n mod 10)]"
        by (subst string_of_nat.simps) simp
      with m "1.prems" string_of_nat_length [of "n div 10"] show False
        by simp
    qed
    then have "string_of_nat n = [digit n]"
      by (subst string_of_nat.simps) simp
    with m "1.prems" True n show ?thesis
      by (simp add: digit_inj)
  next
    case False
    then have m: "string_of_nat m = string_of_nat (m div 10) @ [digit (m mod 10)]"
      by (subst string_of_nat.simps) simp
    have n: "\<not> n < 10"
    proof
      assume "n < 10"
      then have "string_of_nat n = [digit n]"
        by (subst string_of_nat.simps) simp
      with m "1.prems" string_of_nat_length [of "m div 10"] show False
        by simp
    qed
    then have "string_of_nat n = string_of_nat (n div 10) @ [digit (n mod 10)]"
      by (subst string_of_nat.simps) simp
    with m "1.prems" have "string_of_nat (m div 10) = string_of_nat (n div 10)"
      and d: "digit (m mod 10) = digit (n mod 10)"
      by simp_all
    with False have "m div 10 = n div 10"
      by (intro "1.IH")
    moreover have "m mod 10 = n mod 10"
      using d by (intro digit_inj) simp_all
    ultimately show ?thesis
      by (metis div_mult_mod_eq)
  qed
qed

lemma candidate_inj: "candidate b m = candidate b n \<Longrightarrow> m = n"
  by (simp add: candidate_def string_of_nat_inj)

text \<open>The suffixes whose candidate name is taken.\<close>

definition taken :: "graph \<Rightarrow> string \<Rightarrow> nat set" where
  "taken g b = {k. nameOwner g (candidate b k) \<noteq> None}"

lemma nameOwner_Some:
  "nameOwner g s = Some x \<Longrightarrow> x < next_unique g \<and> unique_name (vals g x) = Some s"
  by (auto simp: nameOwner_def find_Some_iff)

lemma finite_taken: "finite (taken g b)"
proof (rule finite_imageD)
  show "finite ((\<lambda>k. the (nameOwner g (candidate b k))) ` taken g b)"
  proof (rule finite_subset)
    show "(\<lambda>k. the (nameOwner g (candidate b k))) ` taken g b \<subseteq> {..<next_unique g}"
      by (auto simp: taken_def dest: nameOwner_Some)
  qed simp
  show "inj_on (\<lambda>k. the (nameOwner g (candidate b k))) (taken g b)"
  proof (rule inj_onI)
    fix j k
    assume "j \<in> taken g b" "k \<in> taken g b"
      and e: "the (nameOwner g (candidate b j)) = the (nameOwner g (candidate b k))"
    then obtain x y where x: "nameOwner g (candidate b j) = Some x"
      and y: "nameOwner g (candidate b k) = Some y"
      by (auto simp: taken_def)
    with e have "x = y" by simp
    with nameOwner_Some [OF x] nameOwner_Some [OF y] have "candidate b j = candidate b k"
      by simp
    then show "j = k"
      by (rule candidate_inj)
  qed
qed

text \<open>The loop \<^verbatim>\<open>do { ... suffix++ ... } while (names.count(replacement_name) > 0)\<close>:
  the first name \<^verbatim>\<open>name_base.suffix\<close>, counting the suffix up, that no value holds. It ends
  because the values of a graph hold finitely many names.\<close>

function replacementName :: "graph \<Rightarrow> string \<Rightarrow> nat \<Rightarrow> string" where
  "replacementName g name_base suffix =
     (if nameOwner g (candidate name_base suffix) = None then candidate name_base suffix
      else replacementName g name_base (Suc suffix))"
  by pat_completeness auto
termination
proof (relation "measure (\<lambda>(g, b, k). card (taken g b \<inter> {k..}))")
  show "wf (measure (\<lambda>(g, b, k). card (taken g b \<inter> {k..})))"
    by simp
next
  fix g :: graph and name_base :: string and suffix :: nat
  assume "nameOwner g (candidate name_base suffix) \<noteq> None"
  then have "suffix \<in> taken g name_base \<inter> {suffix..}"
    by (simp add: taken_def)
  moreover have "suffix \<notin> taken g name_base \<inter> {Suc suffix..}"
    by simp
  moreover have "taken g name_base \<inter> {Suc suffix..} \<subseteq> taken g name_base \<inter> {suffix..}"
    by auto
  ultimately have "taken g name_base \<inter> {Suc suffix..} \<subset> taken g name_base \<inter> {suffix..}"
    by blast
  then have "card (taken g name_base \<inter> {Suc suffix..}) < card (taken g name_base \<inter> {suffix..})"
    by (intro psubset_card_mono) (simp_all add: finite_taken)
  then show "((g, name_base, Suc suffix), (g, name_base, suffix))
      \<in> measure (\<lambda>(g, b, k). card (taken g b \<inter> {k..}))"
    by simp
qed

declare replacementName.simps [simp del]

definition isDigit :: "char \<Rightarrow> bool" where
  "isDigit c = (c \<in> set ''0123456789'')"

definition afterLastDot :: "string \<Rightarrow> string" where
  "afterLastDot name = rev (takeWhile (\<lambda>c. c \<noteq> CHR ''.'') (rev name))"

definition nat_of_string :: "string \<Rightarrow> nat" where
  "nat_of_string s = foldl (\<lambda>n c. 10 * n + (of_char c - 48)) 0 s"

definition nameBase :: "string \<Rightarrow> string \<times> nat" where
  "nameBase name =
     (let after = afterLastDot name in
      if CHR ''.'' \<in> set name \<and> after \<noteq> [] \<and> list_all isDigit after
      then (take (length name - Suc (length after)) name, nat_of_string after)
      else (name, 1))"

definition named :: "vid \<Rightarrow> string option \<Rightarrow> graph \<Rightarrow> graph" where
  "named v s g = g\<lparr>vals := (vals g)(v := (vals g v)\<lparr>unique_name := s\<rparr>)\<rparr>"

definition setUniqueName :: "vid \<Rightarrow> string \<Rightarrow> graph \<Rightarrow> graph" where
  "setUniqueName v name g =
     (let g1 = named v None g in
      if name = [] then g1
      else (case nameOwner g1 name of
              None \<Rightarrow> named v (Some name) g1
            | Some old_owner \<Rightarrow>
                (let (name_base, suffix) = nameBase name;
                     replacement_name = replacementName g1 name_base suffix
                 in named v (Some name) (named old_owner (Some replacement_name) g1))))"

text \<open>Modelled from the spec: \<^verbatim>\<open>Value::setType\<close>, \<^verbatim>\<open>Node::setScope\<close>.\<close>

definition setType :: "vid \<Rightarrow> ty \<Rightarrow> graph \<Rightarrow> graph" where
  "setType v t g = g\<lparr>vals := (vals g)(v := (vals g v)\<lparr>type_of := t\<rparr>)\<rparr>"

definition setScope :: "nid \<Rightarrow> string \<Rightarrow> graph \<Rightarrow> graph" where
  "setScope n s g = g\<lparr>nodes := (nodes g)(n := (nodes g n)\<lparr>scope := s\<rparr>)\<rparr>"

text \<open>Modelled from the spec: \<^verbatim>\<open>Node::addInput\<close> appends a value to the inputs of a
  node.\<close>

definition addInput :: "nid \<Rightarrow> vid \<Rightarrow> graph \<Rightarrow> graph" where
  "addInput n v g = g\<lparr>nodes := (nodes g)(n := (nodes g n)\<lparr>inputs := inputs (nodes g n) @ [v]\<rparr>)\<rparr>"

text \<open>Modelled from the spec: \<^verbatim>\<open>Node::addOutput\<close> gives the node one more output, a new
  value of the default type (tensor) without a name.\<close>

definition addOutput :: "nid \<Rightarrow> graph \<Rightarrow> vid \<times> graph" where
  "addOutput n g =
     (let v = next_unique g in
      (v, g\<lparr>nodes := (nodes g)(n := (nodes g n)\<lparr>outputs := outputs (nodes g n) @ [v]\<rparr>),
             vals := (vals g)(v := \<lparr>node_of = n, type_of = TensorType, unique_name = None\<rparr>),
             next_unique := Suc v\<rparr>))"

text \<open>Modelled from the spec: \<^verbatim>\<open>Graph::create(kind)\<close> makes a node of that kind with no
  input and one output; the node is not linked into any block yet.\<close>

definition create :: "string \<Rightarrow> graph \<Rightarrow> nid \<times> graph" where
  "create k g =
     (let n = next_node g;
          (v, g1) = addOutput n (g\<lparr>nodes := (nodes g)(n := \<lparr>kind = k, inputs = [],
                                     outputs = [], scope = [], attr = None\<rparr>),
                                   next_node := Suc n\<rparr>)
      in (n, g1))"

text \<open>Modelled from the spec: \<^verbatim>\<open>Node::output()\<close>, the output of a node that has exactly
  one.\<close>

definition node_output :: "nid \<Rightarrow> graph \<Rightarrow> vid res" where
  "node_output n g = (case outputs (nodes g n) of [v] \<Rightarrow> (Inr v, g) | _ \<Rightarrow> (Inl AssertionFailure, g))"

text \<open>Modelled from the spec: \<^verbatim>\<open>x->insertAfter(a)\<close> and \<^verbatim>\<open>x->insertBefore(a)\<close> link
  \<open>x\<close> next to \<open>a\<close>; they assert that \<open>x\<close> is not linked yet and that \<open>a\<close> is.\<close>

definition insertAfter :: "nid \<Rightarrow> nid \<Rightarrow> graph \<Rightarrow> unit res" where
  "insertAfter x a g =
     (if inBlockList g x \<or> \<not> inBlockList g a then (Inl AssertionFailure, g)
      else (Inr (), g\<lparr>block := linkAfter_b x a (block g)\<rparr>))"

definition insertBefore :: "nid \<Rightarrow> nid \<Rightarrow> graph \<Rightarrow> unit res" where
  "insertBefore x a g =
     (if inBlockList g x \<or> \<not> inBlockList g a then (Inl AssertionFailure, g)
      else (Inr (), g\<lparr>block := linkBefore_b x a (block g)\<rparr>))"

fun type_of_ivalue :: "ivalue \<Rightarrow> ty" where
  "type_of_ivalue (IDouble x) = FloatType"
| "type_of_ivalue (IInt i) = IntType"
| "type_of_ivalue (IString s) = StringType"

text \<open>Modelled from the spec: \<^verbatim>\<open>Graph::insertConstant\<close> under \<^verbatim>\<open>WithInsertPoint ins(p)\<close>
  makes a \<^verbatim>\<open>prim::Constant\<close> node that holds the literal, links it before the cursor
  \<open>p\<close> and returns its output.\<close>

definition insertConstant :: "ivalue \<Rightarrow> nid \<Rightarrow> graph \<Rightarrow> vid res" where
  "insertConstant c p g =
     (let (n, g1) = create ''prim::Constant'' g;
          g2 = g1\<lparr>nodes := (nodes g1)(n := (nodes g1 n)\<lparr>attr := Some c\<rparr>)\<rparr>
      in andThen (node_output n) (\<lambda>v g3.
         andThen (insertBefore n p) (\<lambda>u g4. (Inr v, g4)) (setType v (type_of_ivalue c) g3)) g2)"

text \<open>Modelled from the spec: \<^verbatim>\<open>v->replaceAllUsesWith(w)\<close> makes every node that
  consumes \<open>v\<close> (return nodes too, whose inputs are the outputs of their block) consume
  \<open>w\<close> in its place.\<close>

definition replaceAllUsesWith :: "vid \<Rightarrow> vid \<Rightarrow> graph \<Rightarrow> graph" where
  "replaceAllUsesWith v w g =
     g\<lparr>nodes := (\<lambda>i. (nodes g i)\<lparr>inputs := map (\<lambda>x. if x = v then w else x)
                                                  (inputs (nodes g i))\<rparr>)\<rparr>"

text \<open>Modelled from the spec: \<^verbatim>\<open>n->replaceInputWith(v, w)\<close> does the same for the inputs
  of the one node \<open>n\<close>.\<close>

definition replaceInputWith :: "nid \<Rightarrow> vid \<Rightarrow> vid \<Rightarrow> graph \<Rightarrow> graph" where
  "replaceInputWith n v w g =
     g\<lparr>nodes := (nodes g)(n := (nodes g n)\<lparr>inputs := map (\<lambda>x. if x = v then w else x)
                                                          (inputs (nodes g n))\<rparr>)\<rparr>"

text \<open>Modelled from the spec: \<^verbatim>\<open>Graph::createClone(n, value_map, false)\<close> with the
  identity as value map: a new unlinked node with the kind, attribute and scope of \<open>n\<close>,
  the inputs of \<open>n\<close>, one new output for each output of \<open>n\<close> with its type and name, and
  no sub-block.\<close>

fun cloneOutputs :: "nid \<Rightarrow> vid list \<Rightarrow> graph \<Rightarrow> graph" where
  "cloneOutputs r [] g = g"
| "cloneOutputs r (v # vs) g =
     (let (w, g1) = addOutput r g;
          g2 = setType w (type_of (vals g1 v)) g1;
          g3 = (case unique_name (vals g2 v) of None \<Rightarrow> g2 | Some s \<Rightarrow> setUniqueName w s g2)
      in cloneOutputs r vs g3)"

definition createClone :: "nid \<Rightarrow> graph \<Rightarrow> nid \<times> graph" where
  "createClone n g =
     (let r = next_node g;
          g1 = g\<lparr>nodes := (nodes g)(r := \<lparr>kind = kind (nodes g n), inputs = [], outputs = [],
                                           scope = [], attr = None\<rparr>),
                 next_node := Suc r\<rparr>;
          g2 = cloneOutputs r (outputs (nodes g1 n)) g1;
          g3 = g2\<lparr>nodes := (nodes g2)(r := (nodes g2 r)\<lparr>attr := attr (nodes g2 n),
                                                         scope := scope (nodes g2 n)\<rparr>)\<rparr>
      in (r, fold (addInput r) (inputs (nodes g3 n)) g3))"

text \<open>A step that cannot fail, as a step of a pass.\<close>

definition perform :: "(graph \<Rightarrow> graph) \<Rightarrow> graph \<Rightarrow> unit res" where
  "perform f g = (Inr (), f g)"

section \<open>QuantizerUtils\<close>

text \<open>Modelled from the spec: the lookup of a node in the \<^verbatim>\<open>OperatorSet\<close>. The operator
  identity of a node is a signature string, and the node is found iff that string is one
  of the entries. The entries are those of the source.\<close>

definition quantnodeLookup :: "string list" where
  "quantnodeLookup =
     [''aten::conv2d(Tensor input, Tensor weight, Tensor? bias=None, int[2] stride=1, int[2] padding=0, int[2] dilation=1, int groups=1) -> Tensor'',
      ''aten::relu(Tensor self) -> Tensor'',
      ''aten::_convolution(Tensor input, Tensor weight, Tensor? bias, int[] stride, int[] padding, int[] dilation, bool transposed, int[] output_padding, int groups, bool benchmark, bool deterministic, bool cudnn_enabled) -> Tensor'']"

definition checkIfNodeQuantizable :: "graph \<Rightarrow> nid \<Rightarrow> bool" where
  "checkIfNodeQuantizable g n = (kind (nodes g n) \<in> set quantnodeLookup)"

definition insertQuantNodeParams :: "nid \<Rightarrow> real \<times> int \<Rightarrow> graph \<Rightarrow> unit res" where
  "insertQuantNodeParams quant qparam =
     andThen (insertConstant (IDouble (fst qparam)) quant) (\<lambda>scale.
     andThen (insertConstant (IInt (snd qparam)) quant) (\<lambda>zeropoint.
     andThen (perform (addInput quant scale)) (\<lambda>u.
     perform (addInput quant zeropoint))))"

text \<open>Create Quant-Dequant node pair for quantizable Value\<close>

definition createQuantDeQuantNodes :: "vid \<Rightarrow> nid \<Rightarrow> graph \<Rightarrow> (nid \<times> nid) res" where
  "createQuantDeQuantNodes v n =
     andThen (\<lambda>g. case create ''aten::quantize_linear'' g of (q, g') \<Rightarrow> (Inr q, g')) (\<lambda>quant.
     andThen (node_output quant) (\<lambda>qo.
     andThen (\<lambda>g. perform (setUniqueName qo (uniqueName g v @ ''.quant'')) g) (\<lambda>u.
     andThen (\<lambda>g. case create ''aten::dequantize'' g of (d, g') \<Rightarrow> (Inr d, g')) (\<lambda>dequant.
     andThen (node_output dequant) (\<lambda>dqo.
     andThen (\<lambda>g. perform (setUniqueName dqo (uniqueName g v @ ''.dequant'')) g) (\<lambda>u.
     andThen (\<lambda>g. perform (setScope quant (scope (nodes g n))) g) (\<lambda>u.
     andThen (\<lambda>g. perform (setScope dequant (scope (nodes g n))) g) (\<lambda>u g.
     (Inr (quant, dequant), g)))))))))"

text \<open>Insert Quant-Dequant node pair for quantizable node outputs\<close>

definition addQuantDeQuantNodes :: "vid \<Rightarrow> graph \<Rightarrow> unit res" where
  "addQuantDeQuantNodes v g0 =
     (let n = node_of (vals g0 v) in
      andThen (createQuantDeQuantNodes v n) (\<lambda>(quant, dequant).
      andThen (insertAfter quant n) (\<lambda>u.
      andThen (insertAfter dequant quant) (\<lambda>u.
      andThen (node_output dequant) (\<lambda>dqo.
      andThen (perform (replaceAllUsesWith v dqo)) (\<lambda>u.
      andThen (perform (addInput quant v)) (\<lambda>u.
      andThen (insertQuantNodeParams quant (1, 0)) (\<lambda>u.
      andThen (node_output quant) (\<lambda>qo.
      perform (addInput dequant qo))))))))) g0)"

text \<open>Insert Quant-Dequant node pair for specific input to node n\<close>

definition addQuantDeQuantNodesForInput :: "vid \<Rightarrow> nid \<Rightarrow> graph \<Rightarrow> unit res" where
  "addQuantDeQuantNodesForInput v n =
     andThen (createQuantDeQuantNodes v n) (\<lambda>(quant, dequant).
     andThen (insertBefore dequant n) (\<lambda>u.
     andThen (insertBefore quant dequant) (\<lambda>u.
     andThen (node_output dequant) (\<lambda>dqo.
     andThen (perform (replaceInputWith n v dqo)) (\<lambda>u.
     andThen (perform (addInput quant v)) (\<lambda>u.
     andThen (insertQuantNodeParams quant (1, 0)) (\<lambda>u.
     andThen (node_output quant) (\<lambda>qo.
     perform (addInput dequant qo)))))))))"

section \<open>PyBind APIs\<close>

definition PropagateQuantInfo :: "graph \<Rightarrow> unit res" where
  "PropagateQuantInfo graph = (Inl (RuntimeError ''Pass not implemented yet!''), graph)"

definition addObserverFor :: "vid \<Rightarrow> nid \<Rightarrow> nid \<Rightarrow> graph \<Rightarrow> nid res" where
  "addObserverFor v original_observer_node insert_point =
     andThen (\<lambda>g. insertConstant (IString (uniqueName g v)) insert_point g) (\<lambda>vname.
     andThen (\<lambda>g. case createClone original_observer_node g of (r, g') \<Rightarrow> (Inr r, g'))
       (\<lambda>observerNode.
     andThen (\<lambda>g. case addOutput observerNode g of (w, g') \<Rightarrow> (Inr w, g')) (\<lambda>observedValue.
     andThen (\<lambda>g. perform (setType observedValue (type_of (vals g v))) g) (\<lambda>u.
     andThen (\<lambda>g. perform (setUniqueName observedValue (uniqueName g v @ ''.observed'')) g)
       (\<lambda>u.
     andThen (perform (addInput observerNode v)) (\<lambda>u.
     andThen (perform (addInput observerNode vname)) (\<lambda>u g.
     (Inr observerNode, g))))))))"

definition outputsNeedToBeObserved :: "graph \<Rightarrow> nid \<Rightarrow> bool" where
  "outputsNeedToBeObserved g n = (kind (nodes g n) \<noteq> ''prim::Constant'')"

text \<open>\<^verbatim>\<open>graph->inputs()\<close> are the outputs of the parameter node of the top block, and
  \<^verbatim>\<open>*graph->nodes().begin()\<close> is the first node of the top block, which is the return node
  that closes the list when the block has no node.\<close>

definition graph_inputs :: "graph \<Rightarrow> vid list" where
  "graph_inputs g = outputs (nodes g (param_node (block g)))"

definition first_node :: "graph \<Rightarrow> nid" where
  "first_node g = (case blk_nodes (block g) of [] \<Rightarrow> return_node (block g) | t # ts \<Rightarrow> nt_id t)"

text \<open>The measure for the loops over the stack of blocks: the number of nodes and blocks
  that the stack holds.\<close>

fun weight_n :: "ntree \<Rightarrow> nat" and weight_b :: "blk \<Rightarrow> nat" where
  "weight_n (NT n bs) = Suc (sum_list (map weight_b bs))"
| "weight_b (Blk p ts r) = Suc (sum_list (map weight_n ts))"

text \<open>The loop over the activation inputs, lines 161 to 168.\<close>

fun observeInputs :: "nid \<Rightarrow> nid \<Rightarrow> nat list \<Rightarrow> nid set \<Rightarrow> graph \<Rightarrow> (nid set) res" where
  "observeInputs observer_node insert_node [] observer_for_input g = (Inr observer_for_input, g)"
| "observeInputs observer_node insert_node (idx # rest) observer_for_input g =
     (let v = graph_inputs g ! idx in
      if isSubtypeOfTensor (type_of (vals g v)) then
        (case addObserverFor v observer_node insert_node g of
           (Inl e, g') \<Rightarrow> (Inl e, g')
         | (Inr new_observer_node, g1) \<Rightarrow>
             (case insertBefore new_observer_node insert_node g1 of
                (Inl e, g') \<Rightarrow> (Inl e, g')
              | (Inr u, g2) \<Rightarrow>
                  observeInputs observer_node insert_node rest
                    (insert new_observer_node observer_for_input) g2))
      else observeInputs observer_node insert_node rest observer_for_input g)"

text \<open>The loop over the nodes of one block, lines 174 to 191: a node that is skipped
  neither records its outputs nor schedules its sub-blocks.\<close>

fun collectNodes ::
  "graph \<Rightarrow> nid set \<Rightarrow> ntree list \<Rightarrow> blk list \<times> vid list \<Rightarrow> blk list \<times> vid list" where
  "collectNodes g observer_for_input [] st = st"
| "collectNodes g observer_for_input (t # ts) (blocks_to_visit, values_to_observe) =
     (if \<not> outputsNeedToBeObserved g (nt_id t) \<or> nt_id t \<in> observer_for_input
      then collectNodes g observer_for_input ts (blocks_to_visit, values_to_observe)
      else collectNodes g observer_for_input ts
             (fold (\<lambda>subblock stack. subblock # stack) (nt_blocks t) blocks_to_visit,
              values_to_observe @ outputs (nodes g (nt_id t))))"

lemma collectNodes_stack:
  "fst (collectNodes g ofi ts (stack, vs)) =
     rev (concat (map nt_blocks
       (filter (\<lambda>t. \<not> (\<not> outputsNeedToBeObserved g (nt_id t) \<or> nt_id t \<in> ofi)) ts))) @ stack"
  by (induction ts arbitrary: stack vs) (simp_all add: fold_Cons_rev)

lemma weight_blocks_le:
  "sum_list (map weight_b (concat (map nt_blocks ts))) \<le> sum_list (map weight_n ts)"
proof (induction ts)
  case Nil
  show ?case by simp
next
  case (Cons t ts)
  then show ?case by (cases t) simp
qed

lemma weight_filter_le:
  "sum_list (map weight_b (concat (map nt_blocks (filter P ts)))) \<le> sum_list (map weight_n ts)"
proof (induction ts)
  case Nil
  show ?case by simp
next
  case (Cons t ts)
  then show ?case by (cases t) simp
qed

text \<open>The loop over the stack of blocks, lines 170 to 192.\<close>

function collectBlocks :: "graph \<Rightarrow> nid set \<Rightarrow> blk list \<Rightarrow> vid list \<Rightarrow> vid list" where
  "collectBlocks g observer_for_input [] values_to_observe = values_to_observe"
| "collectBlocks g observer_for_input (b # blocks_to_visit) values_to_observe =
     (case collectNodes g observer_for_input (blk_nodes b) (blocks_to_visit, values_to_observe)
      of (stack, vs) \<Rightarrow> collectBlocks g observer_for_input stack vs)"
  by pat_completeness auto
termination
proof (relation "measure (\<lambda>(g, ofi, stack, vs). sum_list (map weight_b stack))")
  show "wf (measure (\<lambda>(g, ofi, stack, vs). sum_list (map weight_b stack)))"
    by simp
next
  fix g :: graph and ofi b rest vs stack' vs'
  assume "(stack', vs') = collectNodes g ofi (blk_nodes b) (rest, vs)"
  then have "stack' = fst (collectNodes g ofi (blk_nodes b) (rest, vs))"
    by (metis fst_conv)
  then have "sum_list (map weight_b stack') \<le> sum_list (map weight_n (blk_nodes b)) +
      sum_list (map weight_b rest)"
    using weight_filter_le [of _ "blk_nodes b"]
    by (simp add: collectNodes_stack rev_map [symmetric])
  moreover have "weight_b b = Suc (sum_list (map weight_n (blk_nodes b)))"
    by (cases b) simp
  ultimately show "((g, ofi, stack', vs'), (g, ofi, b # rest, vs))
      \<in> measure (\<lambda>(g, ofi, stack, vs). sum_list (map weight_b stack))"
    by simp
qed

text \<open>The loop that adds the observers, lines 195 to 200.\<close>

definition observeValue :: "nid \<Rightarrow> vid \<Rightarrow> graph \<Rightarrow> unit res" where
  "observeValue observer_node v g =
     (if isSubtypeOfTensor (type_of (vals g v)) then
        andThen (addObserverFor v observer_node (node_of (vals g v))) (\<lambda>clone_observer_node g1.
          insertAfter clone_observer_node (node_of (vals g1 v)) g1) g
      else (Inr (), g))"

definition InsertObserverNodes :: "graph \<Rightarrow> nid \<Rightarrow> nat \<Rightarrow> unit res" where
  "InsertObserverNodes graph observer_node num_activation_inputs =
     (if \<not> num_activation_inputs \<le> length (graph_inputs graph) then (Inl AssertionFailure, graph)
      else
        (let insert_node = first_node graph in
         andThen (observeInputs observer_node insert_node [0..<num_activation_inputs] {})
           (\<lambda>observer_for_input g1.
              forEach (observeValue observer_node)
                (collectBlocks g1 observer_for_input [block g1] []) g1) graph))"

text \<open>The worklists of \<^verbatim>\<open>InsertQuantDequantNodes\<close>.\<close>

record worklists =
  quantInputs :: "(vid \<times> nid) list"
  quantOutputs :: "vid list"
  valueLookup :: "vid set"

text \<open>The loop over the inputs of node \<open>n\<close>, lines 242 to 272.\<close>

fun scanInputs :: "graph \<Rightarrow> nid \<Rightarrow> vid list \<Rightarrow> worklists \<Rightarrow> worklists" where
  "scanInputs g n [] w = w"
| "scanInputs g n (v # vs) w =
     (if \<not> isSubtypeOfTensor (type_of (vals g v)) then scanInputs g n vs w
      else if checkIfNodeQuantizable g (node_of (vals g v)) then
        (if v \<notin> valueLookup w
         then scanInputs g n vs
                (w\<lparr>valueLookup := insert v (valueLookup w),
                   quantOutputs := quantOutputs w @ [v]\<rparr>)
         else scanInputs g n vs w)
      else if checkIfNodeQuantizable g n
        then scanInputs g n vs (w\<lparr>quantInputs := quantInputs w @ [(v, n)]\<rparr>)
      else scanInputs g n vs w)"

text \<open>The loop over the nodes of one block, lines 234 to 273.\<close>

fun scanNodes :: "graph \<Rightarrow> ntree list \<Rightarrow> blk list \<times> worklists \<Rightarrow> blk list \<times> worklists" where
  "scanNodes g [] st = st"
| "scanNodes g (t # ts) (blocks_to_visit, w) =
     scanNodes g ts
       (fold (\<lambda>subblock stack. subblock # stack) (nt_blocks t) blocks_to_visit,
        scanInputs g (nt_id t) (inputs (nodes g (nt_id t))) w)"

text \<open>The loop over the outputs of one block, lines 278 to 284.\<close>

fun scanOutputs :: "graph \<Rightarrow> vid list \<Rightarrow> worklists \<Rightarrow> worklists" where
  "scanOutputs g [] w = w"
| "scanOutputs g (v # outputVals) w =
     (if checkIfNodeQuantizable g (node_of (vals g v)) \<and> isSubtypeOfTensor (type_of (vals g v))
      then scanOutputs g outputVals (w\<lparr>quantOutputs := quantOutputs w @ [v]\<rparr>)
      else scanOutputs g outputVals w)"

lemma scanNodes_stack:
  "fst (scanNodes g ts (stack, w)) = rev (concat (map nt_blocks ts)) @ stack"
  by (induction ts arbitrary: stack w) (simp_all add: fold_Cons_rev)

text \<open>The loop over the stack of blocks, lines 230 to 285.\<close>

function scanBlocks :: "graph \<Rightarrow> blk list \<Rightarrow> worklists \<Rightarrow> worklists" where
  "scanBlocks g [] w = w"
| "scanBlocks g (b # blocks_to_visit) w =
     (case scanNodes g (blk_nodes b) (blocks_to_visit, w)
      of (stack, w1) \<Rightarrow>
        scanBlocks g stack (scanOutputs g (inputs (nodes g (return_node b))) w1))"
  by pat_completeness auto
termination
proof (relation "measure (\<lambda>(g, stack, w). sum_list (map weight_b stack))")
  show "wf (measure (\<lambda>(g, stack, w). sum_list (map weight_b stack)))"
    by simp
next
  fix g :: graph and b rest w stack' w1
  assume "(stack', w1) = scanNodes g (blk_nodes b) (rest, w)"
  then have "stack' = fst (scanNodes g (blk_nodes b) (rest, w))"
    by (metis fst_conv)
  then have "sum_list (map weight_b stack') \<le> sum_list (map weight_n (blk_nodes b)) +
      sum_list (map weight_b rest)"
    using weight_blocks_le [of "blk_nodes b"]
    by (simp add: scanNodes_stack rev_map [symmetric])
  moreover have "weight_b b = Suc (sum_list (map weight_n (blk_nodes b)))"
    by (cases b) simp
  ultimately show "((g, stack', scanOutputs g (inputs (nodes g (return_node b))) w1),
      (g, b # rest, w)) \<in> measure (\<lambda>(g, stack, w). sum_list (map weight_b stack))"
    by simp
qed

definition InsertQuantDequantNodes :: "graph \<Rightarrow> unit res" where
  "InsertQuantDequantNodes graph =
     (let w = scanBlocks graph [block graph]
                \<lparr>quantInputs = [], quantOutputs = [], valueLookup = {}\<rparr>
      in andThen (forEach addQuantDeQuantNodes (quantOutputs w)) (\<lambda>u.
         forEach (\<lambda>ele. addQuantDeQuantNodesForInput (fst ele) (snd ele)) (quantInputs w))
           graph)"

definition QuantLinting :: "graph \<Rightarrow> unit res" where
  "QuantLinting graph = (Inl (RuntimeError ''Pass not implemented yet!''), graph)"

definition FoldQuantNodesIntoInputsOutputs :: "graph \<Rightarrow> unit res" where
  "FoldQuantNodesIntoInputsOutputs graph =
     (Inl (RuntimeError ''Pass not implemented yet!''), graph)"

section \<open>The order of the traversal\<close>

text \<open>The nodes that the loops over the stack of blocks bind to \<^verbatim>\<open>n\<close>, in the order of
  the iterations: the nodes of the block on top of the stack, then those of the blocks
  that the stack holds after the sub-blocks of these nodes were pushed.\<close>

function visitOrder :: "blk list \<Rightarrow> nid list" where
  "visitOrder [] = []"
| "visitOrder (b # blocks_to_visit) =
     map nt_id (blk_nodes b) @
     visitOrder (rev (concat (map nt_blocks (blk_nodes b))) @ blocks_to_visit)"
  by pat_completeness auto
termination
proof (relation "measure (\<lambda>stack. sum_list (map weight_b stack))")
  show "wf (measure (\<lambda>stack. sum_list (map weight_b stack)))"
    by simp
next
  fix b :: blk and rest :: "blk list"
  have "weight_b b = Suc (sum_list (map weight_n (blk_nodes b)))"
    by (cases b) simp
  then show "(rev (concat (map nt_blocks (blk_nodes b))) @ rest, b # rest)
      \<in> measure (\<lambda>stack. sum_list (map weight_b stack))"
    using weight_blocks_le [of "blk_nodes b"] by (simp add: rev_map [symmetric])
qed

text \<open>A node that the observer pass skips at line 177.\<close>

definition skipped :: "graph \<Rightarrow> nid set \<Rightarrow> nid \<Rightarrow> bool" where
  "skipped g observer_for_input n = (\<not> outputsNeedToBeObserved g n \<or> n \<in> observer_for_input)"

function observeOrder :: "graph \<Rightarrow> nid set \<Rightarrow> blk list \<Rightarrow> nid list" where
  "observeOrder g ofi [] = []"
| "observeOrder g ofi (b # blocks_to_visit) =
     map nt_id (blk_nodes b) @
     observeOrder g ofi
       (rev (concat (map nt_blocks (filter (\<lambda>t. \<not> skipped g ofi (nt_id t)) (blk_nodes b)))) @
        blocks_to_visit)"
  by pat_completeness auto
termination
proof (relation "measure (\<lambda>(g, ofi, stack). sum_list (map weight_b stack))")
  show "wf (measure (\<lambda>(g, ofi, stack). sum_list (map weight_b stack)))"
    by simp
next
  fix g :: graph and ofi :: "nid set" and b :: blk and rest :: "blk list"
  have "weight_b b = Suc (sum_list (map weight_n (blk_nodes b)))"
    by (cases b) simp
  then show "((g, ofi, rev (concat (map nt_blocks
        (filter (\<lambda>t. \<not> skipped g ofi (nt_id t)) (blk_nodes b)))) @ rest), (g, ofi, b # rest))
      \<in> measure (\<lambda>(g, ofi, stack). sum_list (map weight_b stack))"
    using weight_filter_le [of "\<lambda>t. \<not> skipped g ofi (nt_id t)" "blk_nodes b"]
    by (simp add: rev_map [symmetric])
qed

text \<open>The nodes of the tree, at every depth.\<close>

fun trees_n :: "ntree \<Rightarrow> ntree list" and trees_b :: "blk \<Rightarrow> ntree list" where
  "trees_n (NT n bs) = NT n bs # concat (map trees_b bs)"
| "trees_b (Blk p ts r) = concat (map trees_n ts)"



section \<open>Example graphs\<close>

definition empty_node :: node where
  "empty_node = \<lparr>kind = [], inputs = [], outputs = [], scope = [], attr = None\<rparr>"

definition empty_val :: val where
  "empty_val = \<lparr>node_of = 0, type_of = NoneType, unique_name = None\<rparr>"

definition relu :: string where
  "relu = ''aten::relu(Tensor self) -> Tensor''"

definition neg :: string where
  "neg = ''aten::neg(Tensor self) -> Tensor''"

text \<open>\<^verbatim>\<open>graph(%x : Tensor) { %v = aten::relu(%x); %w = aten::neg(%v); return (%v, %w) }\<close>:
  the output \<open>v\<close> of the quantizable node 1 is an input of node 2 and an output of the
  block. Node 4 is a node outside the block tree, which serves as observer template.\<close>

definition shared_graph :: graph where
  "shared_graph =
     \<lparr>block = Blk 0 [NT 1 [], NT 2 []] 3,
      nodes = (\<lambda>i. empty_node)
        (0 := \<lparr>kind = ''prim::Param'', inputs = [], outputs = [0], scope = [], attr = None\<rparr>,
         1 := \<lparr>kind = relu, inputs = [0], outputs = [1], scope = [], attr = None\<rparr>,
         2 := \<lparr>kind = neg, inputs = [1], outputs = [2], scope = [], attr = None\<rparr>,
         3 := \<lparr>kind = ''prim::Return'', inputs = [1, 2], outputs = [], scope = [], attr = None\<rparr>,
         4 := \<lparr>kind = ''prim::PythonOp'', inputs = [], outputs = [], scope = [], attr = None\<rparr>),
      vals = (\<lambda>i. empty_val)
        (0 := \<lparr>node_of = 0, type_of = TensorType, unique_name = Some ''x''\<rparr>,
         1 := \<lparr>node_of = 1, type_of = TensorType, unique_name = Some ''v''\<rparr>,
         2 := \<lparr>node_of = 2, type_of = TensorType, unique_name = Some ''w''\<rparr>),
      next_node = 5, next_unique = 3\<rparr>"


text \<open>\<^verbatim>\<open>graph(%x) { %v = aten::relu(%x); %a = aten::neg(%v); %b = aten::neg(%v);
  %c = aten::neg(%v); return (%a, %b, %c) }\<close>: the output \<open>v\<close> of the quantizable node 1
  feeds the three nodes 2, 3 and 4.\<close>

definition fanout_graph :: graph where
  "fanout_graph =
     \<lparr>block = Blk 0 [NT 1 [], NT 2 [], NT 3 [], NT 4 []] 5,
      nodes = (\<lambda>i. empty_node)
        (0 := \<lparr>kind = ''prim::Param'', inputs = [], outputs = [0], scope = [], attr = None\<rparr>,
         1 := \<lparr>kind = relu, inputs = [0], outputs = [1], scope = [], attr = None\<rparr>,
         2 := \<lparr>kind = neg, inputs = [1], outputs = [2], scope = [], attr = None\<rparr>,
         3 := \<lparr>kind = neg, inputs = [1], outputs = [3], scope = [], attr = None\<rparr>,
         4 := \<lparr>kind = neg, inputs = [1], outputs = [4], scope = [], attr = None\<rparr>,
         5 := \<lparr>kind = ''prim::Return'', inputs = [2, 3, 4], outputs = [], scope = [],
                attr = None\<rparr>),
      vals = (\<lambda>i. empty_val)
        (0 := \<lparr>node_of = 0, type_of = TensorType, unique_name = Some ''x''\<rparr>,
         1 := \<lparr>node_of = 1, type_of = TensorType, unique_name = Some ''v''\<rparr>,
         2 := \<lparr>node_of = 2, type_of = TensorType, unique_name = Some ''a''\<rparr>,
         3 := \<lparr>node_of = 3, type_of = TensorType, unique_name = Some ''b''\<rparr>,
         4 := \<lparr>node_of = 4, type_of = TensorType, unique_name = Some ''c''\<rparr>),
      next_node = 6, next_unique = 5\<rparr>"


text \<open>\<^verbatim>\<open>graph(%x : Tensor, %n : int) { %c : Tensor = prim::Constant(); %v = aten::relu(%x);
  %w = aten::neg(%v); return (%w) }\<close>, and the node 5 outside the block tree, which serves
  as observer template.\<close>

definition constant_graph :: graph where
  "constant_graph =
     \<lparr>block = Blk 0 [NT 1 [], NT 2 [], NT 3 []] 4,
      nodes = (\<lambda>i. empty_node)
        (0 := \<lparr>kind = ''prim::Param'', inputs = [], outputs = [0, 1], scope = [], attr = None\<rparr>,
         1 := \<lparr>kind = ''prim::Constant'', inputs = [], outputs = [2], scope = [],
                attr = None\<rparr>,
         2 := \<lparr>kind = relu, inputs = [0], outputs = [3], scope = [], attr = None\<rparr>,
         3 := \<lparr>kind = neg, inputs = [3], outputs = [4], scope = [], attr = None\<rparr>,
         4 := \<lparr>kind = ''prim::Return'', inputs = [4], outputs = [], scope = [], attr = None\<rparr>,
         5 := \<lparr>kind = ''prim::PythonOp'', inputs = [], outputs = [], scope = [], attr = None\<rparr>),
      vals = (\<lambda>i. empty_val)
        (0 := \<lparr>node_of = 0, type_of = DimensionedTensorType 4, unique_name = Some ''x''\<rparr>,
         1 := \<lparr>node_of = 0, type_of = IntType, unique_name = Some ''n''\<rparr>,
         2 := \<lparr>node_of = 1, type_of = TensorType, unique_name = Some ''c''\<rparr>,
         3 := \<lparr>node_of = 2, type_of = DimensionedTensorType 4, unique_name = Some ''v''\<rparr>,
         4 := \<lparr>node_of = 3, type_of = CompleteTensorType [2, 3], unique_name = Some ''w''\<rparr>),
      next_node = 6, next_unique = 5\<rparr>"


text \<open>Node \<open>a\<close> consumes an output of node \<open>b\<close>.\<close>

definition consumes :: "graph \<Rightarrow> nid \<Rightarrow> nid \<Rightarrow> bool" where
  "consumes g a b = list_ex (\<lambda>x. x \<in> set (outputs (nodes g b))) (inputs (nodes g a))"

section \<open>The effect of the rewrites\<close>

subsection \<open>Linking, seen on the node lists\<close>

definition link_after_l :: "nid \<Rightarrow> nid \<Rightarrow> nid list \<times> nid \<Rightarrow> nid list \<times> nid" where
  "link_after_l x a lr =
     ((if snd lr = a then [x] else []) @ concat (map (\<lambda>i. if i = a then [i, x] else [i]) (fst lr)),
      snd lr)"

definition link_before_l :: "nid \<Rightarrow> nid \<Rightarrow> nid list \<times> nid \<Rightarrow> nid list \<times> nid" where
  "link_before_l x a lr =
     (concat (map (\<lambda>i. if i = a then [x, i] else [i]) (fst lr)) @ (if snd lr = a then [x] else []),
      snd lr)"

lemma nt_id_linkAfter [simp]: "nt_id (linkAfter_n x a t) = nt_id t"
  by (cases t) simp

lemma nt_id_linkBefore [simp]: "nt_id (linkBefore_n x a t) = nt_id t"
  by (cases t) simp

lemma ids_after_aux:
  "map nt_id (concat (map (\<lambda>t. if nt_id t = a then [linkAfter_n x a t, NT x []]
                                 else [linkAfter_n x a t]) ts)) =
   concat (map (\<lambda>i. if i = a then [i, x] else [i]) (map nt_id ts))"
  by (induction ts) simp_all

lemma ids_before_aux:
  "map nt_id (concat (map (\<lambda>t. if nt_id t = a then [NT x [], linkBefore_n x a t]
                                 else [linkBefore_n x a t]) ts)) =
   concat (map (\<lambda>i. if i = a then [x, i] else [i]) (map nt_id ts))"
  by (induction ts) simp_all

lemma lists_after_aux:
  assumes "\<And>t. t \<in> set ts \<Longrightarrow> lists_n (linkAfter_n x a t) = map f (lists_n t)"
  shows "concat (map lists_n (concat (map (\<lambda>t. if nt_id t = a then [linkAfter_n x a t, NT x []]
                                 else [linkAfter_n x a t]) ts))) =
   map f (concat (map lists_n ts))"
  using assms by (induction ts) (simp_all add: map_concat)

lemma lists_before_aux:
  assumes "\<And>t. t \<in> set ts \<Longrightarrow> lists_n (linkBefore_n x a t) = map f (lists_n t)"
  shows "concat (map lists_n (concat (map (\<lambda>t. if nt_id t = a then [NT x [], linkBefore_n x a t]
                                 else [linkBefore_n x a t]) ts))) =
   map f (concat (map lists_n ts))"
  using assms by (induction ts) (simp_all add: map_concat)

lemma concat_map_image:
  assumes "\<And>b. b \<in> set bs \<Longrightarrow> h (k b) = map f (h b)"
  shows "concat (map (\<lambda>b. h (k b)) bs) = map f (concat (map h bs))"
  using assms by (induction bs) simp_all

lemma lists_linkAfter:
  "lists_n (linkAfter_n x a t) = map (link_after_l x a) (lists_n t)"
  "lists_b (linkAfter_b x a b) = map (link_after_l x a) (lists_b b)"
proof (induction t and b)
  case (NT n bs)
  then show ?case by (simp add: o_def concat_map_image)
next
  case (Blk p ts r)
  then show ?case
    by (simp add: ids_after_aux lists_after_aux link_after_l_def)
qed

lemma lists_linkBefore:
  "lists_n (linkBefore_n x a t) = map (link_before_l x a) (lists_n t)"
  "lists_b (linkBefore_b x a b) = map (link_before_l x a) (lists_b b)"
proof (induction t and b)
  case (NT n bs)
  then show ?case by (simp add: o_def concat_map_image)
next
  case (Blk p ts r)
  then show ?case
    by (simp add: ids_before_aux lists_before_aux link_before_l_def)
qed


lemma set_after_l:
  "set (concat (map (\<lambda>i. if i = a then [i, x] else [i]) l)) = set l \<union> (if a \<in> set l then {x} else {})"
  by (induction l) auto

lemma set_before_l:
  "set (concat (map (\<lambda>i. if i = a then [x, i] else [i]) l)) = set l \<union> (if a \<in> set l then {x} else {})"
  by (induction l) auto

lemma mem_link_after_l:
  "(i \<in> set (fst (link_after_l x a lr)) \<or> i = snd (link_after_l x a lr)) =
     ((i \<in> set (fst lr) \<or> i = snd lr) \<or> (i = x \<and> (a \<in> set (fst lr) \<or> a = snd lr)))"
  by (cases "a \<in> set (fst lr)"; cases "snd lr = a") (auto simp: link_after_l_def set_after_l)

lemma mem_link_before_l:
  "(i \<in> set (fst (link_before_l x a lr)) \<or> i = snd (link_before_l x a lr)) =
     ((i \<in> set (fst lr) \<or> i = snd lr) \<or> (i = x \<and> (a \<in> set (fst lr) \<or> a = snd lr)))"
  by (cases "a \<in> set (fst lr)"; cases "snd lr = a") (auto simp: link_before_l_def set_before_l)

lemma linked_linkAfter:
  "linked (linkAfter_b x a b) i = (linked b i \<or> (i = x \<and> linked b a))"
proof -
  have "linked (linkAfter_b x a b) i =
      (\<exists>lr\<in>set (lists_b b). (i \<in> set (fst lr) \<or> i = snd lr) \<or>
         (i = x \<and> (a \<in> set (fst lr) \<or> a = snd lr)))"
    by (simp add: linked_def list_ex_iff lists_linkAfter mem_link_after_l)
  also have "\<dots> = (linked b i \<or> (i = x \<and> linked b a))"
    unfolding linked_def list_ex_iff by blast
  finally show ?thesis .
qed

lemma linked_linkBefore:
  "linked (linkBefore_b x a b) i = (linked b i \<or> (i = x \<and> linked b a))"
proof -
  have "linked (linkBefore_b x a b) i =
      (\<exists>lr\<in>set (lists_b b). (i \<in> set (fst lr) \<or> i = snd lr) \<or>
         (i = x \<and> (a \<in> set (fst lr) \<or> a = snd lr)))"
    by (simp add: linked_def list_ex_iff lists_linkBefore mem_link_before_l)
  also have "\<dots> = (linked b i \<or> (i = x \<and> linked b a))"
    unfolding linked_def list_ex_iff by blast
  finally show ?thesis .
qed

lemma follows_l_iff: "follows_l a x l = (\<exists>pre post. l = pre @ a # x # post)"
proof (induction a x l rule: follows_l.induct)
  case (1 a x)
  show ?case by simp
next
  case (2 a x y)
  show ?case by (simp add: Cons_eq_append_conv)
next
  case (3 a x y z l)
  show ?case
  proof
    assume "follows_l a x (y # z # l)"
    then consider "y = a \<and> z = x" | "follows_l a x (z # l)" by auto
    then show "\<exists>pre post. y # z # l = pre @ a # x # post"
    proof cases
      case 1
      then have "y # z # l = [] @ a # x # l" by simp
      then show ?thesis by blast
    next
      case 2
      with "3.IH" obtain pre post where "z # l = pre @ a # x # post" by blast
      then have "y # z # l = (y # pre) @ a # x # post" by simp
      then show ?thesis by blast
    qed
  next
    assume "\<exists>pre post. y # z # l = pre @ a # x # post"
    then obtain pre post where e: "y # z # l = pre @ a # x # post" by blast
    show "follows_l a x (y # z # l)"
    proof (cases pre)
      case Nil
      with e show ?thesis by simp
    next
      case (Cons p pre')
      with e have "z # l = pre' @ a # x # post" by simp
      then have "follows_l a x (z # l)" using "3.IH" by blast
      then show ?thesis by simp
    qed
  qed
qed

definition inNodes :: "blk \<Rightarrow> nid \<Rightarrow> bool" where
  "inNodes b n = list_ex (\<lambda>lr. n \<in> set (fst lr)) (lists_b b)"



lemma follows_after_succ:
  assumes "follows_l c x l"
  shows "follows_l y x (p @ concat (map (\<lambda>i. if i = c then [i, y] else [i]) l))"
proof -
  from assms obtain pre post where "l = pre @ c # x # post"
    unfolding follows_l_iff by blast
  then have "p @ concat (map (\<lambda>i. if i = c then [i, y] else [i]) l) =
      (p @ concat (map (\<lambda>i. if i = c then [i, y] else [i]) pre) @ [c]) @ y # x #
        ((if x = c then [y] else []) @ concat (map (\<lambda>i. if i = c then [i, y] else [i]) post))"
    by simp
  then show ?thesis unfolding follows_l_iff by blast
qed




lemma adjacent_lift:
  assumes "list_ex (\<lambda>lr. P (fst lr)) (lists_b b)"
    and "lists_b b' = map f (lists_b b)"
    and "\<And>lr. P (fst lr) \<Longrightarrow> follows_l a x (fst (f lr))"
  shows "adjacent b' a x"
proof -
  from assms(1) obtain lr where "lr \<in> set (lists_b b)" and "P (fst lr)"
    unfolding list_ex_iff by blast
  then have "f lr \<in> set (lists_b b')" and "follows_l a x (fst (f lr))"
    using assms(2,3) by simp_all
  then show ?thesis unfolding adjacent_def list_ex_iff by blast
qed



lemma adjacent_after_succ: "adjacent b c x \<Longrightarrow> adjacent (linkAfter_b y c b) y x"
  unfolding adjacent_def [of b]
  by (erule adjacent_lift [OF _ lists_linkAfter(2)])
    (simp add: link_after_l_def follows_after_succ)






lemma inNodes_linked: "inNodes b n \<Longrightarrow> linked b n"
  unfolding inNodes_def linked_def list_ex_iff by blast

subsection \<open>The steps as functions on the graph\<close>

text \<open>The nodes that are linked into a block are nodes of the store.\<close>

definition allocated :: "graph \<Rightarrow> bool" where
  "allocated g = (\<forall>i. inBlockList g i \<longrightarrow> i < next_node g)"

definition constantNode :: "ivalue \<Rightarrow> nid \<Rightarrow> graph \<Rightarrow> graph" where
  "constantNode c p g =
     g\<lparr>block := linkBefore_b (next_node g) p (block g),
       nodes := (nodes g)(next_node g := \<lparr>kind = ''prim::Constant'', inputs = [],
                                            outputs = [next_unique g], scope = [], attr = Some c\<rparr>),
       vals := (vals g)(next_unique g := \<lparr>node_of = next_node g, type_of = type_of_ivalue c,
                                            unique_name = None\<rparr>),
       next_node := Suc (next_node g), next_unique := Suc (next_unique g)\<rparr>"

definition created :: "string \<Rightarrow> graph \<Rightarrow> graph" where
  "created k g = snd (create k g)"

definition relinked :: "blk \<Rightarrow> graph \<Rightarrow> graph" where
  "relinked b g = g\<lparr>block := b\<rparr>"

lemma create_eq: "create k g = (next_node g, created k g)"
  by (simp add: create_def created_def addOutput_def Let_def)

lemma created_sel:
  "block (created k g) = block g"
  "next_node (created k g) = Suc (next_node g)"
  "next_unique (created k g) = Suc (next_unique g)"
  "nodes (created k g) i =
     (if i = next_node g
      then \<lparr>kind = k, inputs = [], outputs = [next_unique g], scope = [], attr = None\<rparr>
      else nodes g i)"
  "vals (created k g) x =
     (if x = next_unique g
      then \<lparr>node_of = next_node g, type_of = TensorType, unique_name = None\<rparr>
      else vals g x)"
  by (simp_all add: created_def create_def addOutput_def Let_def)

lemma constantNode_sel:
  "block (constantNode c p g) = linkBefore_b (next_node g) p (block g)"
  "next_node (constantNode c p g) = Suc (next_node g)"
  "next_unique (constantNode c p g) = Suc (next_unique g)"
  "nodes (constantNode c p g) i =
     (if i = next_node g
      then \<lparr>kind = ''prim::Constant'', inputs = [], outputs = [next_unique g], scope = [],
             attr = Some c\<rparr>
      else nodes g i)"
  "vals (constantNode c p g) x =
     (if x = next_unique g
      then \<lparr>node_of = next_node g, type_of = type_of_ivalue c, unique_name = None\<rparr>
      else vals g x)"
  by (simp_all add: constantNode_def)

lemma relinked_sel:
  "block (relinked b g) = b"
  "next_node (relinked b g) = next_node g"
  "next_unique (relinked b g) = next_unique g"
  "nodes (relinked b g) = nodes g"
  "vals (relinked b g) = vals g"
  by (simp_all add: relinked_def)

lemma setUniqueName_sel:
  "block (setUniqueName v s g) = block g"
  "next_node (setUniqueName v s g) = next_node g"
  "next_unique (setUniqueName v s g) = next_unique g"
  "nodes (setUniqueName v s g) = nodes g"
  "node_of (vals (setUniqueName v s g) x) = node_of (vals g x)"
  "type_of (vals (setUniqueName v s g) x) = type_of (vals g x)"
  by (simp_all add: setUniqueName_def named_def Let_def split: option.split prod.split)

lemma named_sel:
  "block (named v s g) = block g"
  "next_node (named v s g) = next_node g"
  "next_unique (named v s g) = next_unique g"
  "nodes (named v s g) = nodes g"
  "node_of (vals (named v s g) x) = node_of (vals g x)"
  "type_of (vals (named v s g) x) = type_of (vals g x)"
  "unique_name (vals (named v s g) x) = (if x = v then s else unique_name (vals g x))"
  by (simp_all add: named_def)

lemma nameOwner_None:
  "nameOwner g s = None \<longleftrightarrow> (\<forall>x<next_unique g. unique_name (vals g x) \<noteq> Some s)"
  by (auto simp: nameOwner_def find_None_iff)

text \<open>Setting a name that no other value holds changes the name of this value only.\<close>

lemma setUniqueName_fresh:
  assumes "name \<noteq> []"
    and "\<forall>x<next_unique g. x \<noteq> v \<longrightarrow> unique_name (vals g x) \<noteq> Some name"
  shows "setUniqueName v name g = named v (Some name) g"
proof -
  have "nameOwner (named v None g) name = None"
    using assms(2) by (simp add: nameOwner_None named_sel)
  moreover have "named v (Some name) (named v None g) = named v (Some name) g"
    by (simp add: named_def)
  ultimately show ?thesis
    using assms(1) by (simp add: setUniqueName_def Let_def)
qed

lemma setType_sel:
  "block (setType v t g) = block g"
  "next_node (setType v t g) = next_node g"
  "next_unique (setType v t g) = next_unique g"
  "nodes (setType v t g) = nodes g"
  "vals (setType v t g) x = (if x = v then (vals g x)\<lparr>type_of := t\<rparr> else vals g x)"
  by (simp_all add: setType_def)

lemma setScope_sel:
  "block (setScope n s g) = block g"
  "next_node (setScope n s g) = next_node g"
  "next_unique (setScope n s g) = next_unique g"
  "nodes (setScope n s g) i = (if i = n then (nodes g i)\<lparr>scope := s\<rparr> else nodes g i)"
  "vals (setScope n s g) = vals g"
  by (simp_all add: setScope_def)

lemma addInput_sel:
  "block (addInput n v g) = block g"
  "next_node (addInput n v g) = next_node g"
  "next_unique (addInput n v g) = next_unique g"
  "nodes (addInput n v g) i =
     (if i = n then (nodes g i)\<lparr>inputs := inputs (nodes g i) @ [v]\<rparr> else nodes g i)"
  "vals (addInput n v g) = vals g"
  by (simp_all add: addInput_def)

lemma replaceAllUsesWith_sel:
  "block (replaceAllUsesWith v w g) = block g"
  "next_node (replaceAllUsesWith v w g) = next_node g"
  "next_unique (replaceAllUsesWith v w g) = next_unique g"
  "nodes (replaceAllUsesWith v w g) i =
     (nodes g i)\<lparr>inputs := map (\<lambda>x. if x = v then w else x) (inputs (nodes g i))\<rparr>"
  "vals (replaceAllUsesWith v w g) = vals g"
  by (simp_all add: replaceAllUsesWith_def)

lemma replaceInputWith_sel:
  "block (replaceInputWith n v w g) = block g"
  "next_node (replaceInputWith n v w g) = next_node g"
  "next_unique (replaceInputWith n v w g) = next_unique g"
  "nodes (replaceInputWith n v w g) i =
     (if i = n
      then (nodes g i)\<lparr>inputs := map (\<lambda>x. if x = v then w else x) (inputs (nodes g i))\<rparr>
      else nodes g i)"
  "vals (replaceInputWith n v w g) = vals g"
  by (simp_all add: replaceInputWith_def)

lemmas sel = created_sel constantNode_sel relinked_sel setUniqueName_sel setType_sel setScope_sel
  addInput_sel replaceAllUsesWith_sel replaceInputWith_sel

lemma insertAfter_eq:
  assumes "inBlockList g a" and "\<not> inBlockList g x"
  shows "insertAfter x a g = (Inr (), relinked (linkAfter_b x a (block g)) g)"
  using assms by (simp add: insertAfter_def relinked_def)

lemma insertBefore_eq:
  assumes "inBlockList g a" and "\<not> inBlockList g x"
  shows "insertBefore x a g = (Inr (), relinked (linkBefore_b x a (block g)) g)"
  using assms by (simp add: insertBefore_def relinked_def)

lemma insertConstant_eq:
  assumes "inBlockList g p" and "allocated g"
  shows "insertConstant c p g = (Inr (next_unique g), constantNode c p g)"
proof -
  from assms have "\<not> inBlockList g (next_node g)"
    by (auto simp: allocated_def)
  with assms(1) show ?thesis
    by (simp add: insertConstant_def create_def addOutput_def andThen_def node_output_def setType_def
        insertBefore_def inBlockList_def constantNode_def Let_def)
qed


definition createdPair :: "vid \<Rightarrow> nid \<Rightarrow> graph \<Rightarrow> graph" where
  "createdPair v n g =
     (let g1 = created ''aten::quantize_linear'' g;
          g2 = setUniqueName (next_unique g) (uniqueName g1 v @ ''.quant'') g1;
          g3 = created ''aten::dequantize'' g2;
          g4 = setUniqueName (Suc (next_unique g)) (uniqueName g3 v @ ''.dequant'') g3;
          g5 = setScope (next_node g) (scope (nodes g4 n)) g4
      in setScope (Suc (next_node g)) (scope (nodes g5 n)) g5)"

definition paramsAdded :: "nid \<Rightarrow> graph \<Rightarrow> graph" where
  "paramsAdded quant g =
     addInput quant (Suc (next_unique g)) (addInput quant (next_unique g)
       (constantNode (IInt 0) quant (constantNode (IDouble 1) quant g)))"

lemma createQuantDeQuantNodes_eq:
  "createQuantDeQuantNodes v n g = (Inr (next_node g, Suc (next_node g)), createdPair v n g)"
  by (simp add: createQuantDeQuantNodes_def andThen_def create_eq node_output_def perform_def
      sel createdPair_def Let_def)

lemma inBlockList_constantNode:
  "inBlockList (constantNode c p g) i = (inBlockList g i \<or> (i = next_node g \<and> inBlockList g p))"
  by (simp add: inBlockList_def sel linked_linkBefore)

lemma allocated_constantNode:
  assumes "inBlockList g p" and "allocated g"
  shows "allocated (constantNode c p g)"
  using assms by (auto simp: allocated_def inBlockList_constantNode sel)

lemma insertQuantNodeParams_eq:
  assumes "inBlockList g quant" and "allocated g"
  shows "insertQuantNodeParams quant (1, 0) g = (Inr (), paramsAdded quant g)"
proof -
  have 1: "insertConstant (IDouble 1) quant g = (Inr (next_unique g), constantNode (IDouble 1) quant g)"
    using assms by (rule insertConstant_eq)
  have "inBlockList (constantNode (IDouble 1) quant g) quant"
    and "allocated (constantNode (IDouble 1) quant g)"
    using assms by (simp_all add: inBlockList_constantNode allocated_constantNode)
  then have 2: "insertConstant (IInt 0) quant (constantNode (IDouble 1) quant g) =
      (Inr (next_unique (constantNode (IDouble 1) quant g)),
       constantNode (IInt 0) quant (constantNode (IDouble 1) quant g))"
    by (rule insertConstant_eq)
  show ?thesis
    by (simp add: insertQuantNodeParams_def andThen_def 1 2 sel perform_def paramsAdded_def)
qed


lemma createdPair_sel:
  "block (createdPair v n g) = block g"
  "next_node (createdPair v n g) = Suc (Suc (next_node g))"
  "next_unique (createdPair v n g) = Suc (Suc (next_unique g))"
  "kind (nodes (createdPair v n g) i) =
     (if i = next_node g then ''aten::quantize_linear''
      else if i = Suc (next_node g) then ''aten::dequantize'' else kind (nodes g i))"
  "inputs (nodes (createdPair v n g) i) =
     (if i = next_node g \<or> i = Suc (next_node g) then [] else inputs (nodes g i))"
  "outputs (nodes (createdPair v n g) i) =
     (if i = next_node g then [next_unique g]
      else if i = Suc (next_node g) then [Suc (next_unique g)] else outputs (nodes g i))"
  "attr (nodes (createdPair v n g) i) =
     (if i = next_node g \<or> i = Suc (next_node g) then None else attr (nodes g i))"
  "node_of (vals (createdPair v n g) x) =
     (if x = next_unique g then next_node g
      else if x = Suc (next_unique g) then Suc (next_node g) else node_of (vals g x))"
  "type_of (vals (createdPair v n g) x) =
     (if x = next_unique g \<or> x = Suc (next_unique g) then TensorType else type_of (vals g x))"
  by (simp_all add: createdPair_def Let_def sel)

lemma paramsAdded_sel:
  "block (paramsAdded q g) =
     linkBefore_b (Suc (next_node g)) q (linkBefore_b (next_node g) q (block g))"
  "next_node (paramsAdded q g) = Suc (Suc (next_node g))"
  "next_unique (paramsAdded q g) = Suc (Suc (next_unique g))"
  by (simp_all add: paramsAdded_def sel)

lemma paramsAdded_nodes:
  "i < next_node g \<Longrightarrow> nodes (paramsAdded q g) i =
     (if i = q then (nodes g i)\<lparr>inputs := inputs (nodes g i) @ [next_unique g, Suc (next_unique g)]\<rparr>
      else nodes g i)"
  "nodes (paramsAdded q g) (next_node g) =
     (if q = next_node g
      then \<lparr>kind = ''prim::Constant'', inputs = [next_unique g, Suc (next_unique g)],
             outputs = [next_unique g], scope = [], attr = Some (IDouble 1)\<rparr>
      else \<lparr>kind = ''prim::Constant'', inputs = [], outputs = [next_unique g], scope = [],
             attr = Some (IDouble 1)\<rparr>)"
  "nodes (paramsAdded q g) (Suc (next_node g)) =
     (if q = Suc (next_node g)
      then \<lparr>kind = ''prim::Constant'', inputs = [next_unique g, Suc (next_unique g)],
             outputs = [Suc (next_unique g)], scope = [], attr = Some (IInt 0)\<rparr>
      else \<lparr>kind = ''prim::Constant'', inputs = [], outputs = [Suc (next_unique g)], scope = [],
             attr = Some (IInt 0)\<rparr>)"
  by (simp_all add: paramsAdded_def sel)

lemma paramsAdded_vals:
  "vals (paramsAdded q g) x =
     (if x = Suc (next_unique g)
      then \<lparr>node_of = Suc (next_node g), type_of = IntType, unique_name = None\<rparr>
      else if x = next_unique g
      then \<lparr>node_of = next_node g, type_of = FloatType, unique_name = None\<rparr>
      else vals g x)"
  by (simp add: paramsAdded_def sel)

definition outputRewritten :: "vid \<Rightarrow> graph \<Rightarrow> graph" where
  "outputRewritten v g =
     (let n = node_of (vals g v); quant = next_node g; dequant = Suc quant;
          g1 = createdPair v n g;
          g2 = relinked (linkAfter_b dequant quant (linkAfter_b quant n (block g))) g1;
          g3 = addInput quant v (replaceAllUsesWith v (Suc (next_unique g)) g2)
      in addInput dequant (next_unique g) (paramsAdded quant g3))"

lemma addQuantDeQuantNodes_eq:
  assumes "inBlockList g (node_of (vals g v))" and "allocated g"
  shows "addQuantDeQuantNodes v g = (Inr (), outputRewritten v g)"
proof -
  define n where "n = node_of (vals g v)"
  define q where "q = next_node g"
  define g1 where "g1 = createdPair v n g"
  define g2 where "g2 = relinked (linkAfter_b q n (block g)) g1"
  define g3 where "g3 = relinked (linkAfter_b (Suc q) q (linkAfter_b q n (block g))) g1"
  define g5 where "g5 = addInput q v (replaceAllUsesWith v (Suc (next_unique g)) g3)"
  have fresh: "\<not> inBlockList g q" "\<not> inBlockList g (Suc q)"
    using assms(2) by (auto simp: allocated_def q_def)
  have linked_n: "linked (block g) n"
    using assms(1) by (simp add: inBlockList_def n_def)
  have s1: "createQuantDeQuantNodes v n g = (Inr (q, Suc q), g1)"
    by (simp add: createQuantDeQuantNodes_eq q_def g1_def)
  have s2: "insertAfter q n g1 = (Inr (), g2)"
    using fresh linked_n
    by (simp add: insertAfter_eq inBlockList_def g1_def g2_def createdPair_sel)
  have "inBlockList g2 q" and "\<not> inBlockList g2 (Suc q)"
    using fresh linked_n
    by (simp_all add: inBlockList_def g2_def relinked_sel linked_linkAfter)
  then have s3: "insertAfter (Suc q) q g2 = (Inr (), g3)"
    by (simp add: insertAfter_eq g2_def g3_def relinked_sel relinked_def)
  have s4: "node_output (Suc q) g3 = (Inr (Suc (next_unique g)), g3)"
    by (simp add: node_output_def g3_def g1_def relinked_sel createdPair_sel q_def)
  have l5: "inBlockList g5 q"
    using linked_n
    by (simp add: inBlockList_def g5_def g3_def sel createdPair_sel linked_linkAfter)
  have "inBlockList g5 i \<Longrightarrow> i < next_node g5" for i
    using assms(2)
    by (auto simp: allocated_def inBlockList_def g5_def g3_def g1_def sel createdPair_sel
        linked_linkAfter q_def)
  then have "allocated g5"
    by (simp add: allocated_def)
  with l5 have s6: "insertQuantNodeParams q (1, 0) g5 = (Inr (), paramsAdded q g5)"
    by (rule insertQuantNodeParams_eq)
  have "next_node g5 = Suc (Suc q)"
    by (simp add: g5_def g3_def g1_def sel createdPair_sel q_def)
  then have "outputs (nodes (paramsAdded q g5) q) = [next_unique g]"
    by (simp add: paramsAdded_nodes)
      (simp add: g5_def g3_def g1_def sel createdPair_sel q_def)
  then have s7: "node_output q (paramsAdded q g5) = (Inr (next_unique g), paramsAdded q g5)"
    by (simp add: node_output_def)
  show ?thesis
    unfolding addQuantDeQuantNodes_def Let_def n_def [symmetric]
    by (simp add: andThen_def s1 s2 s3 s4 s6 s7 perform_def g5_def [symmetric])
      (simp add: outputRewritten_def Let_def g5_def g3_def g1_def n_def q_def)
qed


definition inputRewritten :: "vid \<Rightarrow> nid \<Rightarrow> graph \<Rightarrow> graph" where
  "inputRewritten v n g =
     (let quant = next_node g; dequant = Suc quant;
          g1 = createdPair v n g;
          g2 = relinked (linkBefore_b quant dequant (linkBefore_b dequant n (block g))) g1;
          g3 = addInput quant v (replaceInputWith n v (Suc (next_unique g)) g2)
      in addInput dequant (next_unique g) (paramsAdded quant g3))"

lemma addQuantDeQuantNodesForInput_eq:
  assumes "inBlockList g n" and "allocated g"
  shows "addQuantDeQuantNodesForInput v n g = (Inr (), inputRewritten v n g)"
proof -
  define q where "q = next_node g"
  define g1 where "g1 = createdPair v n g"
  define g2 where "g2 = relinked (linkBefore_b (Suc q) n (block g)) g1"
  define g3 where "g3 = relinked (linkBefore_b q (Suc q) (linkBefore_b (Suc q) n (block g))) g1"
  define g5 where "g5 = addInput q v (replaceInputWith n v (Suc (next_unique g)) g3)"
  have fresh: "\<not> inBlockList g q" "\<not> inBlockList g (Suc q)"
    using assms(2) by (auto simp: allocated_def q_def)
  have linked_n: "linked (block g) n"
    using assms(1) by (simp add: inBlockList_def)
  have s1: "createQuantDeQuantNodes v n g = (Inr (q, Suc q), g1)"
    by (simp add: createQuantDeQuantNodes_eq q_def g1_def)
  have s2: "insertBefore (Suc q) n g1 = (Inr (), g2)"
    using fresh linked_n
    by (simp add: insertBefore_eq inBlockList_def g1_def g2_def createdPair_sel)
  have "inBlockList g2 (Suc q)" and "\<not> inBlockList g2 q"
    using fresh linked_n
    by (simp_all add: inBlockList_def g2_def relinked_sel linked_linkBefore)
  then have s3: "insertBefore q (Suc q) g2 = (Inr (), g3)"
    by (simp add: insertBefore_eq g2_def g3_def relinked_sel relinked_def)
  have s4: "node_output (Suc q) g3 = (Inr (Suc (next_unique g)), g3)"
    by (simp add: node_output_def g3_def g1_def relinked_sel createdPair_sel q_def)
  have l5: "inBlockList g5 q"
    using linked_n
    by (simp add: inBlockList_def g5_def g3_def sel createdPair_sel linked_linkBefore)
  have "inBlockList g5 i \<Longrightarrow> i < next_node g5" for i
    using assms(2)
    by (auto simp: allocated_def inBlockList_def g5_def g3_def g1_def sel createdPair_sel
        linked_linkBefore q_def)
  then have "allocated g5"
    by (simp add: allocated_def)
  with l5 have s6: "insertQuantNodeParams q (1, 0) g5 = (Inr (), paramsAdded q g5)"
    by (rule insertQuantNodeParams_eq)
  have "next_node g5 = Suc (Suc q)"
    by (simp add: g5_def g3_def g1_def sel createdPair_sel q_def)
  then have "outputs (nodes (paramsAdded q g5) q) = [next_unique g]"
    by (simp add: paramsAdded_nodes)
      (simp add: g5_def g3_def g1_def sel createdPair_sel q_def)
  then have s7: "node_output q (paramsAdded q g5) = (Inr (next_unique g), paramsAdded q g5)"
    by (simp add: node_output_def)
  show ?thesis
    unfolding addQuantDeQuantNodesForInput_def
    by (simp add: andThen_def s1 s2 s3 s4 s6 s7 perform_def g5_def [symmetric])
      (simp add: inputRewritten_def Let_def g5_def g3_def g1_def q_def)
qed

lemma outputRewritten_sel:
  "block (outputRewritten v g) =
     linkBefore_b (Suc (Suc (Suc (next_node g)))) (next_node g)
       (linkBefore_b (Suc (Suc (next_node g))) (next_node g)
         (linkAfter_b (Suc (next_node g)) (next_node g)
           (linkAfter_b (next_node g) (node_of (vals g v)) (block g))))"
  "next_node (outputRewritten v g) = Suc (Suc (Suc (Suc (next_node g))))"
  "next_unique (outputRewritten v g) = Suc (Suc (Suc (Suc (next_unique g))))"
  by (simp_all add: outputRewritten_def Let_def sel paramsAdded_sel createdPair_sel)

lemma inputRewritten_sel:
  "block (inputRewritten v n g) =
     linkBefore_b (Suc (Suc (Suc (next_node g)))) (next_node g)
       (linkBefore_b (Suc (Suc (next_node g))) (next_node g)
         (linkBefore_b (next_node g) (Suc (next_node g))
           (linkBefore_b (Suc (next_node g)) n (block g))))"
  "next_node (inputRewritten v n g) = Suc (Suc (Suc (Suc (next_node g))))"
  "next_unique (inputRewritten v n g) = Suc (Suc (Suc (Suc (next_unique g))))"
  by (simp_all add: inputRewritten_def Let_def sel paramsAdded_sel createdPair_sel)

lemma outputRewritten_inputs:
  "inputs (nodes (outputRewritten v g) i) =
     (if i = next_node g then [v, Suc (Suc (next_unique g)), Suc (Suc (Suc (next_unique g)))]
      else if i = Suc (next_node g) then [next_unique g]
      else if i = Suc (Suc (next_node g)) \<or> i = Suc (Suc (Suc (next_node g))) then []
      else map (\<lambda>x. if x = v then Suc (next_unique g) else x) (inputs (nodes g i)))"
  by (simp add: outputRewritten_def Let_def sel paramsAdded_def createdPair_sel)

lemma inputRewritten_inputs:
  "inputs (nodes (inputRewritten v n g) i) =
     (if i = next_node g then [v, Suc (Suc (next_unique g)), Suc (Suc (Suc (next_unique g)))]
      else if i = Suc (next_node g) then [next_unique g]
      else if i = Suc (Suc (next_node g)) \<or> i = Suc (Suc (Suc (next_node g))) then []
      else if i = n then map (\<lambda>x. if x = v then Suc (next_unique g) else x) (inputs (nodes g i))
      else inputs (nodes g i))"
  by (simp add: inputRewritten_def Let_def sel paramsAdded_def createdPair_sel)


lemma outputRewritten_kind:
  "kind (nodes (outputRewritten v g) i) =
     (if i = next_node g then ''aten::quantize_linear''
      else if i = Suc (next_node g) then ''aten::dequantize''
      else if i = Suc (Suc (next_node g)) \<or> i = Suc (Suc (Suc (next_node g)))
      then ''prim::Constant'' else kind (nodes g i))"
  by (simp add: outputRewritten_def Let_def sel paramsAdded_def createdPair_sel)

lemma outputRewritten_outputs:
  "outputs (nodes (outputRewritten v g) i) =
     (if i = next_node g then [next_unique g]
      else if i = Suc (next_node g) then [Suc (next_unique g)]
      else if i = Suc (Suc (next_node g)) then [Suc (Suc (next_unique g))]
      else if i = Suc (Suc (Suc (next_node g))) then [Suc (Suc (Suc (next_unique g)))]
      else outputs (nodes g i))"
  by (simp add: outputRewritten_def Let_def sel paramsAdded_def createdPair_sel)


lemma inputRewritten_kind:
  "kind (nodes (inputRewritten v n g) i) =
     (if i = next_node g then ''aten::quantize_linear''
      else if i = Suc (next_node g) then ''aten::dequantize''
      else if i = Suc (Suc (next_node g)) \<or> i = Suc (Suc (Suc (next_node g)))
      then ''prim::Constant'' else kind (nodes g i))"
  by (simp add: inputRewritten_def Let_def sel paramsAdded_def createdPair_sel)

lemma inputRewritten_outputs:
  "outputs (nodes (inputRewritten v n g) i) =
     (if i = next_node g then [next_unique g]
      else if i = Suc (next_node g) then [Suc (next_unique g)]
      else if i = Suc (Suc (next_node g)) then [Suc (Suc (next_unique g))]
      else if i = Suc (Suc (Suc (next_node g))) then [Suc (Suc (Suc (next_unique g)))]
      else outputs (nodes g i))"
  by (simp add: inputRewritten_def Let_def sel paramsAdded_def createdPair_sel)


lemma outputRewritten_vals:
  assumes "x < next_unique g"
  shows "node_of (vals (outputRewritten v g) x) = node_of (vals g x)"
    and "type_of (vals (outputRewritten v g) x) = type_of (vals g x)"
  using assms
  by (simp_all add: outputRewritten_def Let_def sel paramsAdded_vals createdPair_sel)

lemma inputRewritten_vals:
  assumes "x < next_unique g"
  shows "node_of (vals (inputRewritten v n g) x) = node_of (vals g x)"
    and "type_of (vals (inputRewritten v n g) x) = type_of (vals g x)"
  using assms
  by (simp_all add: inputRewritten_def Let_def sel paramsAdded_vals createdPair_sel)

lemma outputRewritten_linked:
  assumes "allocated g"
  shows "inBlockList (outputRewritten v g) i =
     (inBlockList g i \<or>
      (inBlockList g (node_of (vals g v)) \<and>
       i \<in> {next_node g, Suc (next_node g), Suc (Suc (next_node g)),
             Suc (Suc (Suc (next_node g)))}))"
proof -
  have "\<not> linked (block g) (next_node g)" "\<not> linked (block g) (Suc (next_node g))"
    using assms by (auto simp: allocated_def inBlockList_def)
  then show ?thesis
    by (auto simp: inBlockList_def outputRewritten_sel linked_linkAfter linked_linkBefore)
qed

lemma inputRewritten_linked:
  assumes "allocated g"
  shows "inBlockList (inputRewritten v n g) i =
     (inBlockList g i \<or>
      (inBlockList g n \<and>
       i \<in> {next_node g, Suc (next_node g), Suc (Suc (next_node g)),
             Suc (Suc (Suc (next_node g)))}))"
proof -
  have "\<not> linked (block g) (next_node g)" "\<not> linked (block g) (Suc (next_node g))"
    using assms by (auto simp: allocated_def inBlockList_def)
  then show ?thesis
    by (auto simp: inBlockList_def inputRewritten_sel linked_linkAfter linked_linkBefore)
qed

lemma allocated_outputRewritten:
  assumes "allocated g"
  shows "allocated (outputRewritten v g)"
  using assms unfolding allocated_def [of "outputRewritten v g"]
  by (auto simp: outputRewritten_linked outputRewritten_sel allocated_def)

lemma allocated_inputRewritten:
  assumes "allocated g"
  shows "allocated (inputRewritten v n g)"
  using assms unfolding allocated_def [of "inputRewritten v n g"]
  by (auto simp: inputRewritten_linked inputRewritten_sel allocated_def)

subsection \<open>The two loops of the pass as folds\<close>

lemma allocated_lt: "allocated g \<Longrightarrow> inBlockList g n \<Longrightarrow> n < next_node g"
  by (simp add: allocated_def)

lemma outputRewritten_mono: "inBlockList g i \<Longrightarrow> inBlockList (outputRewritten v g) i"
  by (simp add: inBlockList_def outputRewritten_sel linked_linkAfter linked_linkBefore)

lemma inputRewritten_mono: "inBlockList g i \<Longrightarrow> inBlockList (inputRewritten v n g) i"
  by (simp add: inBlockList_def inputRewritten_sel linked_linkAfter linked_linkBefore)

lemma forEach_addQuantDeQuantNodes:
  assumes "allocated g"
    and "\<forall>v\<in>set vs. v < next_unique g \<and> inBlockList g (node_of (vals g v))"
  shows "forEach addQuantDeQuantNodes vs g = (Inr (), fold outputRewritten vs g)"
  using assms
proof (induction vs arbitrary: g)
  case Nil
  show ?case by simp
next
  case (Cons v vs)
  have step: "addQuantDeQuantNodes v g = (Inr (), outputRewritten v g)"
    using Cons.prems by (simp add: addQuantDeQuantNodes_eq)
  have "allocated (outputRewritten v g)"
    using Cons.prems(1) by (rule allocated_outputRewritten)
  moreover have "\<forall>x\<in>set vs. x < next_unique (outputRewritten v g) \<and>
      inBlockList (outputRewritten v g) (node_of (vals (outputRewritten v g) x))"
    using Cons.prems(2)
    by (auto simp add: outputRewritten_sel outputRewritten_vals outputRewritten_mono)
  ultimately have "forEach addQuantDeQuantNodes vs (outputRewritten v g) =
      (Inr (), fold outputRewritten vs (outputRewritten v g))"
    by (rule Cons.IH)
  with step show ?case by simp
qed

lemma forEach_addQuantDeQuantNodesForInput:
  assumes "allocated g" and "\<forall>p\<in>set ps. inBlockList g (snd p)"
  shows "forEach (\<lambda>ele. addQuantDeQuantNodesForInput (fst ele) (snd ele)) ps g =
     (Inr (), fold (\<lambda>ele. inputRewritten (fst ele) (snd ele)) ps g)"
  using assms
proof (induction ps arbitrary: g)
  case Nil
  show ?case by simp
next
  case (Cons p ps)
  have step: "addQuantDeQuantNodesForInput (fst p) (snd p) g =
      (Inr (), inputRewritten (fst p) (snd p) g)"
    using Cons.prems by (simp add: addQuantDeQuantNodesForInput_eq)
  have "allocated (inputRewritten (fst p) (snd p) g)"
    using Cons.prems(1) by (rule allocated_inputRewritten)
  moreover have "\<forall>x\<in>set ps. inBlockList (inputRewritten (fst p) (snd p) g) (snd x)"
    using Cons.prems(2) by (simp add: inputRewritten_mono)
  ultimately have "forEach (\<lambda>ele. addQuantDeQuantNodesForInput (fst ele) (snd ele)) ps
      (inputRewritten (fst p) (snd p) g) =
      (Inr (), fold (\<lambda>ele. inputRewritten (fst ele) (snd ele)) ps
        (inputRewritten (fst p) (snd p) g))"
    by (rule Cons.IH)
  with step show ?case by simp
qed

lemma fold_outputRewritten_allocated:
  "allocated g \<Longrightarrow> allocated (fold outputRewritten vs g)"
  by (induction vs arbitrary: g) (simp_all add: allocated_outputRewritten)

lemma fold_outputRewritten_mono:
  "inBlockList g i \<Longrightarrow> inBlockList (fold outputRewritten vs g) i"
  by (induction vs arbitrary: g) (simp_all add: outputRewritten_mono)

lemma InsertQuantDequantNodes_eq:
  assumes "allocated g"
    and "w = scanBlocks g [block g] \<lparr>quantInputs = [], quantOutputs = [], valueLookup = {}\<rparr>"
    and "\<forall>v\<in>set (quantOutputs w). v < next_unique g \<and> inBlockList g (node_of (vals g v))"
    and "\<forall>p\<in>set (quantInputs w). inBlockList g (snd p)"
  shows "InsertQuantDequantNodes g =
     (Inr (), fold (\<lambda>ele. inputRewritten (fst ele) (snd ele)) (quantInputs w)
                (fold outputRewritten (quantOutputs w) g))"
proof -
  have 1: "forEach addQuantDeQuantNodes (quantOutputs w) g =
      (Inr (), fold outputRewritten (quantOutputs w) g)"
    using assms(1,3) by (rule forEach_addQuantDeQuantNodes)
  have "allocated (fold outputRewritten (quantOutputs w) g)"
    using assms(1) by (rule fold_outputRewritten_allocated)
  moreover have "\<forall>p\<in>set (quantInputs w).
      inBlockList (fold outputRewritten (quantOutputs w) g) (snd p)"
    using assms(4) by (simp add: fold_outputRewritten_mono)
  ultimately have 2: "forEach (\<lambda>ele. addQuantDeQuantNodesForInput (fst ele) (snd ele))
      (quantInputs w) (fold outputRewritten (quantOutputs w) g) =
      (Inr (), fold (\<lambda>ele. inputRewritten (fst ele) (snd ele)) (quantInputs w)
        (fold outputRewritten (quantOutputs w) g))"
    by (rule forEach_addQuantDeQuantNodesForInput)
  show ?thesis
    unfolding InsertQuantDequantNodes_def Let_def assms(2) [symmetric]
    by (simp add: andThen_def 1 2)
qed

lemma shared_graph_scan:
  "scanBlocks shared_graph [block shared_graph]
     \<lparr>quantInputs = [], quantOutputs = [], valueLookup = {}\<rparr> =
   \<lparr>quantInputs = [(0, 1)], quantOutputs = [1, 1], valueLookup = {1}\<rparr>"
  by (simp add: shared_graph_def checkIfNodeQuantizable_def quantnodeLookup_def
      isSubtypeOfTensor_def relu_def neg_def)

lemma shared_graph_allocated: "allocated shared_graph"
  by (auto simp: allocated_def inBlockList_def linked_def shared_graph_def)

lemma shared_graph_pass:
  "InsertQuantDequantNodes shared_graph =
     (Inr (), inputRewritten 0 1 (outputRewritten 1 (outputRewritten 1 shared_graph)))"
proof -
  have "inBlockList shared_graph 1" and "node_of (vals shared_graph 1) = 1"
    and "next_unique shared_graph = 3"
    by (simp_all add: shared_graph_def inBlockList_def linked_def)
  then show ?thesis
    using InsertQuantDequantNodes_eq [OF shared_graph_allocated shared_graph_scan [symmetric]]
    by simp
qed

subsection \<open>The traversal\<close>

lemma ids_b_unfold:
  "mset (ids_b b) =
     mset (map nt_id (blk_nodes b)) + mset (concat (map ids_b (concat (map nt_blocks (blk_nodes b)))))"
proof (cases b)
  case (Blk p ts r)
  have "mset (concat (map ids_n ts)) =
      mset (map nt_id ts) + mset (concat (map ids_b (concat (map nt_blocks ts))))"
  proof (induction ts)
    case Nil
    show ?case by simp
  next
    case (Cons t ts)
    then show ?case by (cases t) simp
  qed
  with Blk show ?thesis by simp
qed

lemma mset_concat_rev: "mset (concat (map f (rev xs))) = mset (concat (map f xs))"
  by (induction xs) simp_all

lemma visitOrder_mset: "mset (visitOrder stack) = mset (concat (map ids_b stack))"
proof (induction stack rule: visitOrder.induct)
  case 1
  show ?case by simp
next
  case (2 b rest)
  then show ?case
    by (simp add: ids_b_unfold [of b] mset_concat_rev)
qed






lemma collectNodes_values:
  "snd (collectNodes g ofi ts (stack, vs)) =
     vs @ concat (map (\<lambda>t. outputs (nodes g (nt_id t)))
                   (filter (\<lambda>t. \<not> skipped g ofi (nt_id t)) ts))"
  by (induction ts arbitrary: stack vs) (simp_all add: skipped_def)

lemma collectBlocks_values:
  "collectBlocks g ofi stack vs =
     vs @ concat (map (\<lambda>n. outputs (nodes g n))
                   (filter (\<lambda>n. \<not> skipped g ofi n) (observeOrder g ofi stack)))"
proof (induction g ofi stack vs rule: collectBlocks.induct)
  case (1 g ofi vs)
  show ?case by simp
next
  case (2 g ofi b rest vs)
  obtain stack' vs' where cn: "collectNodes g ofi (blk_nodes b) (rest, vs) = (stack', vs')"
    by (cases "collectNodes g ofi (blk_nodes b) (rest, vs)")
  have st: "stack' = rev (concat (map nt_blocks
      (filter (\<lambda>t. \<not> skipped g ofi (nt_id t)) (blk_nodes b)))) @ rest"
    using collectNodes_stack [of g ofi "blk_nodes b" rest vs] cn by (simp add: skipped_def)
  have v1: "vs' = vs @ concat (map (\<lambda>t. outputs (nodes g (nt_id t)))
      (filter (\<lambda>t. \<not> skipped g ofi (nt_id t)) (blk_nodes b)))"
    using collectNodes_values [of g ofi "blk_nodes b" rest vs] cn by simp
  have "collectBlocks g ofi stack' vs' =
      vs' @ concat (map (\<lambda>n. outputs (nodes g n))
                     (filter (\<lambda>n. \<not> skipped g ofi n) (observeOrder g ofi stack')))"
    using "2.IH" [OF cn [symmetric]] .
  then show ?case
    by (simp add: cn st v1 filter_map o_def)
qed

lemma blocks_of_unskipped:
  assumes "\<forall>t\<in>set ts. P t \<longrightarrow> nt_blocks t = []"
  shows "concat (map nt_blocks (filter (\<lambda>t. \<not> P t) ts)) = concat (map nt_blocks ts)"
  using assms by (induction ts) simp_all

lemma trees_n_self: "t \<in> set (trees_n t)"
  by (cases t) simp

lemma trees_n_sub: "b' \<in> set (nt_blocks t) \<Longrightarrow> set (trees_b b') \<subseteq> set (trees_n t)"
  by (cases t) auto

lemma trees_b_top: "t \<in> set (blk_nodes b) \<Longrightarrow> t \<in> set (trees_b b)"
  using trees_n_self by (cases b) auto

lemma trees_b_sub:
  assumes "t \<in> set (blk_nodes b)" and "b' \<in> set (nt_blocks t)"
  shows "set (trees_b b') \<subseteq> set (trees_b b)"
proof -
  have "set (trees_n t) \<subseteq> set (trees_b b)"
    using assms(1) by (cases b) auto
  with trees_n_sub [OF assms(2)] show ?thesis by blast
qed

lemma observeOrder_visitOrder:
  assumes "\<forall>b\<in>set stack. \<forall>t\<in>set (trees_b b). skipped g ofi (nt_id t) \<longrightarrow> nt_blocks t = []"
  shows "observeOrder g ofi stack = visitOrder stack"
  using assms
proof (induction stack rule: visitOrder.induct)
  case 1
  show ?case by simp
next
  case (2 b rest)
  have here: "\<forall>t\<in>set (trees_b b). skipped g ofi (nt_id t) \<longrightarrow> nt_blocks t = []"
    and there: "\<forall>b'\<in>set rest. \<forall>t\<in>set (trees_b b'). skipped g ofi (nt_id t) \<longrightarrow> nt_blocks t = []"
    using "2.prems" by simp_all
  have top: "\<forall>t\<in>set (blk_nodes b). skipped g ofi (nt_id t) \<longrightarrow> nt_blocks t = []"
    using here trees_b_top by blast
  have below: "\<forall>t\<in>set (trees_b b'). skipped g ofi (nt_id t) \<longrightarrow> nt_blocks t = []"
    if "b' \<in> set (concat (map nt_blocks (blk_nodes b)))" for b'
  proof -
    from that obtain t where "t \<in> set (blk_nodes b)" and "b' \<in> set (nt_blocks t)"
      by auto
    then have "set (trees_b b') \<subseteq> set (trees_b b)"
      by (rule trees_b_sub)
    with here show ?thesis by blast
  qed
  have sub: "\<forall>b'\<in>set (rev (concat (map nt_blocks (blk_nodes b))) @ rest).
      \<forall>t\<in>set (trees_b b'). skipped g ofi (nt_id t) \<longrightarrow> nt_blocks t = []"
  proof
    fix b'
    assume "b' \<in> set (rev (concat (map nt_blocks (blk_nodes b))) @ rest)"
    then have "b' \<in> set (concat (map nt_blocks (blk_nodes b))) \<or> b' \<in> set rest"
      by (simp only: set_append set_rev Un_iff)
    then show "\<forall>t\<in>set (trees_b b'). skipped g ofi (nt_id t) \<longrightarrow> nt_blocks t = []"
      using below there by blast
  qed
  have "observeOrder g ofi (rev (concat (map nt_blocks (blk_nodes b))) @ rest) =
      visitOrder (rev (concat (map nt_blocks (blk_nodes b))) @ rest)"
    using sub by (rule "2.IH")
  then show ?case
    by (simp only: observeOrder.simps visitOrder.simps blocks_of_unskipped [OF top])
qed







subsection \<open>The observers of a value\<close>

definition cloned :: "nid \<Rightarrow> graph \<Rightarrow> graph" where
  "cloned n g = snd (createClone n g)"

definition outputAdded :: "nid \<Rightarrow> graph \<Rightarrow> graph" where
  "outputAdded n g = snd (addOutput n g)"

lemma addOutput_eq: "addOutput n g = (next_unique g, outputAdded n g)"
  by (simp add: addOutput_def outputAdded_def Let_def)

lemma outputAdded_sel:
  "block (outputAdded n g) = block g"
  "next_node (outputAdded n g) = next_node g"
  "next_unique (outputAdded n g) = Suc (next_unique g)"
  "nodes (outputAdded n g) i =
     (if i = n then (nodes g i)\<lparr>outputs := outputs (nodes g i) @ [next_unique g]\<rparr> else nodes g i)"
  "vals (outputAdded n g) x =
     (if x = next_unique g then \<lparr>node_of = n, type_of = TensorType, unique_name = None\<rparr>
      else vals g x)"
  by (simp_all add: outputAdded_def addOutput_def Let_def)

lemma cloneOutputs_sel:
  "block (cloneOutputs r vs g) = block g"
  "next_node (cloneOutputs r vs g) = next_node g"
  "next_unique (cloneOutputs r vs g) = next_unique g + length vs"
  by (induction vs arbitrary: g)
    (simp_all add: addOutput_eq outputAdded_sel sel Let_def split: option.split)

lemma cloneOutputs_nodes:
  "nodes (cloneOutputs r vs g) i =
     (if i = r
      then (nodes g i)\<lparr>outputs := outputs (nodes g i) @
                                     [next_unique g..<next_unique g + length vs]\<rparr>
      else nodes g i)"
proof (induction vs arbitrary: g)
  case Nil
  show ?case by simp
next
  case (Cons v vs)
  have u: "[next_unique g..<Suc (next_unique g + length vs)] =
      next_unique g # [Suc (next_unique g)..<Suc (next_unique g + length vs)]"
    by (rule upt_conv_Cons) simp
  show ?case
    by (simp add: Cons.IH addOutput_eq outputAdded_sel sel Let_def u del: upt_Suc
        split: option.split)
qed

lemma cloneOutputs_vals:
  assumes "x < next_unique g"
  shows "node_of (vals (cloneOutputs r vs g) x) = node_of (vals g x)"
    and "type_of (vals (cloneOutputs r vs g) x) = type_of (vals g x)"
  using assms
  by (induction vs arbitrary: g)
    (simp_all add: addOutput_eq outputAdded_sel sel Let_def split: option.split)

lemma fold_addInput_sel:
  "block (fold (addInput r) xs g) = block g"
  "next_node (fold (addInput r) xs g) = next_node g"
  "next_unique (fold (addInput r) xs g) = next_unique g"
  "vals (fold (addInput r) xs g) = vals g"
  by (induction xs arbitrary: g) (simp_all add: sel)

lemma fold_addInput_nodes:
  "nodes (fold (addInput r) xs g) i =
     (if i = r then (nodes g i)\<lparr>inputs := inputs (nodes g i) @ xs\<rparr> else nodes g i)"
  by (induction xs arbitrary: g) (simp_all add: sel)

lemma createClone_eq: "createClone n g = (next_node g, cloned n g)"
  by (simp add: createClone_def cloned_def Let_def)

lemma cloned_sel:
  "block (cloned n g) = block g"
  "next_node (cloned n g) = Suc (next_node g)"
  "next_unique (cloned n g) = next_unique g + length (outputs (nodes g n))"
  if "n < next_node g"
  using that
  by (simp_all add: cloned_def createClone_def Let_def fold_addInput_sel cloneOutputs_sel)

lemma cloned_nodes:
  assumes "n < next_node g"
  shows "nodes (cloned n g) i =
     (if i = next_node g
      then \<lparr>kind = kind (nodes g n), inputs = inputs (nodes g n),
             outputs = [next_unique g..<next_unique g + length (outputs (nodes g n))],
             scope = scope (nodes g n), attr = attr (nodes g n)\<rparr>
      else nodes g i)"
  using assms
  by (simp add: cloned_def createClone_def Let_def fold_addInput_nodes cloneOutputs_nodes
      cloneOutputs_sel)

lemma cloned_vals:
  assumes "x < next_unique g"
  shows "node_of (vals (cloned n g) x) = node_of (vals g x)"
    and "type_of (vals (cloned n g) x) = type_of (vals g x)"
  using assms
  by (simp_all add: cloned_def createClone_def Let_def fold_addInput_sel cloneOutputs_vals)


lemmas sel2 = sel outputAdded_sel

definition observerAdded :: "vid \<Rightarrow> nid \<Rightarrow> nid \<Rightarrow> graph \<Rightarrow> graph" where
  "observerAdded v original_observer_node insert_point g =
     (let g1 = constantNode (IString (uniqueName g v)) insert_point g;
          g2 = cloned original_observer_node g1;
          g3 = outputAdded (next_node g1) g2;
          g4 = setType (next_unique g2) (type_of (vals g3 v)) g3;
          g5 = setUniqueName (next_unique g2) (uniqueName g4 v @ ''.observed'') g4
      in addInput (next_node g1) (next_unique g) (addInput (next_node g1) v g5))"

lemma addObserverFor_eq:
  assumes "inBlockList g insert_point" and "allocated g"
  shows "addObserverFor v original_observer_node insert_point g =
     (Inr (Suc (next_node g)), observerAdded v original_observer_node insert_point g)"
proof -
  have 1: "insertConstant (IString (uniqueName g v)) insert_point g =
      (Inr (next_unique g), constantNode (IString (uniqueName g v)) insert_point g)"
    using assms by (rule insertConstant_eq)
  show ?thesis
    unfolding addObserverFor_def
    by (simp add: andThen_def 1 createClone_eq addOutput_eq perform_def observerAdded_def
        Let_def constantNode_sel)
qed

lemma observerAdded_sel:
  assumes "tmpl < next_node g"
  shows "block (observerAdded v tmpl ip g) = linkBefore_b (next_node g) ip (block g)"
    and "next_node (observerAdded v tmpl ip g) = Suc (Suc (next_node g))"
    and "next_unique (observerAdded v tmpl ip g) =
      Suc (Suc (next_unique g + length (outputs (nodes g tmpl))))"
  using assms
  by (simp_all add: observerAdded_def Let_def sel2 cloned_sel cloned_nodes)

lemma observerAdded_old_nodes:
  assumes "tmpl < next_node g" and "i < next_node g"
  shows "nodes (observerAdded v tmpl ip g) i = nodes g i"
  using assms
  by (simp add: observerAdded_def Let_def sel2 cloned_sel cloned_nodes)

lemma observerAdded_constant:
  assumes "tmpl < next_node g"
  shows "nodes (observerAdded v tmpl ip g) (next_node g) =
     \<lparr>kind = ''prim::Constant'', inputs = [], outputs = [next_unique g], scope = [],
      attr = Some (IString (uniqueName g v))\<rparr>"
  using assms
  by (simp add: observerAdded_def Let_def sel2 cloned_sel cloned_nodes)

lemma observerAdded_clone:
  assumes "tmpl < next_node g"
  shows "nodes (observerAdded v tmpl ip g) (Suc (next_node g)) =
     \<lparr>kind = kind (nodes g tmpl), inputs = inputs (nodes g tmpl) @ [v, next_unique g],
      outputs = [Suc (next_unique g)..<Suc (next_unique g) + length (outputs (nodes g tmpl))] @
                [Suc (next_unique g) + length (outputs (nodes g tmpl))],
      scope = scope (nodes g tmpl), attr = attr (nodes g tmpl)\<rparr>"
  using assms
  by (simp add: observerAdded_def Let_def sel2 cloned_sel cloned_nodes)

lemma observerAdded_old_vals:
  assumes "tmpl < next_node g" and "x < next_unique g"
  shows "node_of (vals (observerAdded v tmpl ip g) x) = node_of (vals g x)"
    and "type_of (vals (observerAdded v tmpl ip g) x) = type_of (vals g x)"
  using assms
  by (simp_all add: observerAdded_def Let_def sel2 cloned_sel cloned_vals)

text \<open>The new output of the clone has the type that line 122 gives it, the type of the
  value that is observed.\<close>

lemma observerAdded_new_val:
  assumes "tmpl < next_node g" and "v < next_unique g"
  shows "node_of (vals (observerAdded v tmpl ip g)
        (Suc (next_unique g + length (outputs (nodes g tmpl))))) = Suc (next_node g)"
    and "type_of (vals (observerAdded v tmpl ip g)
        (Suc (next_unique g + length (outputs (nodes g tmpl))))) = type_of (vals g v)"
  using assms
  by (simp_all add: observerAdded_def Let_def sel2 cloned_sel cloned_vals)

text \<open>The names, when the outputs of the observer node have no name and no value holds
  the name of the new output: no value is renamed.\<close>

lemma cloneOutputs_names:
  assumes "\<forall>y\<in>set vs. y < next_unique g \<and> unique_name (vals g y) = None"
  shows "unique_name (vals (cloneOutputs r vs g) x) =
     (if next_unique g \<le> x \<and> x < next_unique g + length vs then None
      else unique_name (vals g x))"
  using assms
proof (induction vs arbitrary: g)
  case Nil
  show ?case by auto
next
  case (Cons v vs)
  define g2 where "g2 = setType (next_unique g) (type_of (vals (outputAdded r g) v)) (outputAdded r g)"
  have v: "unique_name (vals g2 v) = None"
    using Cons.prems by (simp add: g2_def sel2)
  have "\<forall>y\<in>set vs. y < next_unique g2 \<and> unique_name (vals g2 y) = None"
    using Cons.prems by (auto simp: g2_def sel2)
  then have "unique_name (vals (cloneOutputs r vs g2) x) =
     (if next_unique g2 \<le> x \<and> x < next_unique g2 + length vs then None
      else unique_name (vals g2 x))"
    by (rule Cons.IH)
  moreover have "cloneOutputs r (v # vs) g = cloneOutputs r vs g2"
    using v by (simp add: addOutput_eq Let_def g2_def)
  ultimately show ?case
    by (auto simp: g2_def sel2)
qed

lemma cloned_names:
  assumes "n < next_node g"
    and "\<forall>y\<in>set (outputs (nodes g n)). y < next_unique g \<and> unique_name (vals g y) = None"
  shows "unique_name (vals (cloned n g) x) =
     (if next_unique g \<le> x \<and> x < next_unique g + length (outputs (nodes g n)) then None
      else unique_name (vals g x))"
  using assms
  by (simp add: cloned_def createClone_def Let_def fold_addInput_sel cloneOutputs_names)

lemma observerAdded_names:
  assumes t: "tmpl < next_node g" and v: "v < next_unique g"
    and o: "\<forall>y\<in>set (outputs (nodes g tmpl)). y < next_unique g \<and> unique_name (vals g y) = None"
    and f: "\<forall>x<next_unique g. unique_name (vals g x) \<noteq> Some (uniqueName g v @ ''.observed'')"
  shows "unique_name (vals (observerAdded v tmpl ip g) x) =
     (if x = Suc (next_unique g + length (outputs (nodes g tmpl)))
      then Some (uniqueName g v @ ''.observed'')
      else if next_unique g \<le> x \<and> x \<le> next_unique g + length (outputs (nodes g tmpl))
      then None else unique_name (vals g x))"
proof -
  define T where "T = length (outputs (nodes g tmpl))"
  define g1 where "g1 = constantNode (IString (uniqueName g v)) ip g"
  define g2 where "g2 = cloned tmpl g1"
  define g3 where "g3 = outputAdded (next_node g1) g2"
  define g4 where "g4 = setType (next_unique g2) (type_of (vals g3 v)) g3"
  have t1: "tmpl < next_node g1" and n1: "nodes g1 tmpl = nodes g tmpl"
    using t by (simp_all add: g1_def sel)
  have o1: "\<forall>y\<in>set (outputs (nodes g1 tmpl)).
      y < next_unique g1 \<and> unique_name (vals g1 y) = None"
    using o by (auto simp: g1_def sel n1 [unfolded g1_def])
  have u2: "next_unique g2 = Suc (next_unique g + T)"
    using t1 by (simp add: g2_def cloned_sel n1 T_def) (simp add: g1_def sel)
  have names2: "unique_name (vals g2 y) =
      (if next_unique g \<le> y \<and> y \<le> next_unique g + T then None else unique_name (vals g y))"
    for y
    unfolding g2_def cloned_names [OF t1 o1] n1 T_def [symmetric]
    by (auto simp: g1_def sel)
  have names4: "unique_name (vals g4 y) =
      (if next_unique g \<le> y \<and> y \<le> Suc (next_unique g + T) then None
       else unique_name (vals g y))" for y
    by (auto simp: g4_def g3_def sel2 names2 u2)
  have u4: "next_unique g4 = Suc (Suc (next_unique g + T))"
    by (simp add: g4_def g3_def sel2 u2)
  have n4: "uniqueName g4 v = uniqueName g v"
    using v by (simp add: uniqueName_def names4)
  have "\<forall>y<next_unique g4. y \<noteq> next_unique g2 \<longrightarrow>
      unique_name (vals g4 y) \<noteq> Some (uniqueName g4 v @ ''.observed'')"
    using f by (auto simp: names4 n4 u4)
  then have "setUniqueName (next_unique g2) (uniqueName g4 v @ ''.observed'') g4 =
      named (next_unique g2) (Some (uniqueName g4 v @ ''.observed'')) g4"
    by (intro setUniqueName_fresh) simp_all
  then have "observerAdded v tmpl ip g =
      addInput (next_node g1) (next_unique g) (addInput (next_node g1) v
        (named (next_unique g2) (Some (uniqueName g4 v @ ''.observed'')) g4))"
    by (simp add: observerAdded_def Let_def g1_def g2_def g3_def g4_def)
  then show ?thesis
    by (auto simp: sel named_sel names4 n4 u2 T_def)
qed


definition inputObserved :: "vid \<Rightarrow> nid \<Rightarrow> nid \<Rightarrow> graph \<Rightarrow> graph" where
  "inputObserved v tmpl insert_node g =
     (let g1 = observerAdded v tmpl insert_node g
      in relinked (linkBefore_b (Suc (next_node g)) insert_node (block g1)) g1)"

definition valueObserved :: "nid \<Rightarrow> vid \<Rightarrow> graph \<Rightarrow> graph" where
  "valueObserved tmpl v g =
     (let g1 = observerAdded v tmpl (node_of (vals g v)) g
      in relinked (linkAfter_b (Suc (next_node g)) (node_of (vals g1 v)) (block g1)) g1)"

lemma observerAdded_linked:
  assumes "tmpl < next_node g"
  shows "inBlockList (observerAdded v tmpl ip g) i =
     (inBlockList g i \<or> (i = next_node g \<and> inBlockList g ip))"
  using assms by (simp add: inBlockList_def observerAdded_sel linked_linkBefore)

lemma inputObserve_eq:
  assumes "inBlockList g ip" and "allocated g" and "tmpl < next_node g"
  shows "addObserverFor v tmpl ip g = (Inr (Suc (next_node g)), observerAdded v tmpl ip g)"
    and "insertBefore (Suc (next_node g)) ip (observerAdded v tmpl ip g) =
      (Inr (), inputObserved v tmpl ip g)"
proof -
  show "addObserverFor v tmpl ip g = (Inr (Suc (next_node g)), observerAdded v tmpl ip g)"
    using assms(1,2) by (rule addObserverFor_eq)
  have "\<not> inBlockList g (Suc (next_node g))"
    using assms(2) by (auto simp: allocated_def)
  then have "inBlockList (observerAdded v tmpl ip g) ip"
    and "\<not> inBlockList (observerAdded v tmpl ip g) (Suc (next_node g))"
    using assms(1,3) by (simp_all add: observerAdded_linked)
  then show "insertBefore (Suc (next_node g)) ip (observerAdded v tmpl ip g) =
      (Inr (), inputObserved v tmpl ip g)"
    by (simp add: insertBefore_eq inputObserved_def Let_def)
qed

lemma observeValue_eq:
  assumes "inBlockList g (node_of (vals g v))" and "allocated g" and "tmpl < next_node g"
    and "v < next_unique g"
  shows "observeValue tmpl v g =
     (Inr (), if isSubtypeOfTensor (type_of (vals g v)) then valueObserved tmpl v g else g)"
proof (cases "isSubtypeOfTensor (type_of (vals g v))")
  case False
  then show ?thesis by (simp add: observeValue_def)
next
  case True
  define g1 where "g1 = observerAdded v tmpl (node_of (vals g v)) g"
  have 1: "addObserverFor v tmpl (node_of (vals g v)) g = (Inr (Suc (next_node g)), g1)"
    unfolding g1_def using assms(1,2) by (rule addObserverFor_eq)
  have n: "node_of (vals g1 v) = node_of (vals g v)"
    using assms(3,4) by (simp add: g1_def observerAdded_old_vals)
  have "\<not> inBlockList g (Suc (next_node g))"
    using assms(2) by (auto simp: allocated_def)
  then have "inBlockList g1 (node_of (vals g v))" and "\<not> inBlockList g1 (Suc (next_node g))"
    using assms(1,3) by (simp_all add: g1_def observerAdded_linked)
  then have 2: "insertAfter (Suc (next_node g)) (node_of (vals g1 v)) g1 =
      (Inr (), relinked (linkAfter_b (Suc (next_node g)) (node_of (vals g1 v)) (block g1)) g1)"
    by (simp add: insertAfter_eq n)
  show ?thesis
    using True
    by (simp add: observeValue_def andThen_def 1 2 valueObserved_def Let_def g1_def [symmetric])
qed

text \<open>The graph \<open>g'\<close> is the graph \<open>g\<close> with a name constant and a clone of the observer
  for each value of the list: the nodes of \<open>g\<close> are unchanged, and the values of \<open>g\<close> have
  the producer and the type that they had.\<close>

definition observers_for :: "nid \<Rightarrow> graph \<Rightarrow> vid list \<Rightarrow> graph \<Rightarrow> bool" where
  "observers_for tmpl g vs g' =
     (next_node g' = next_node g + 2 * length vs \<and>
      next_unique g' = next_unique g + (length (outputs (nodes g tmpl)) + 2) * length vs \<and>
      (\<forall>i<next_node g. nodes g' i = nodes g i) \<and>
      (\<forall>x<next_unique g. node_of (vals g' x) = node_of (vals g x) \<and>
         type_of (vals g' x) = type_of (vals g x)) \<and>
      (\<forall>m<length vs.
         kind (nodes g' (next_node g + 2 * m)) = ''prim::Constant'' \<and>
         inputs (nodes g' (next_node g + 2 * m)) = [] \<and>
         outputs (nodes g' (next_node g + 2 * m)) =
           [next_unique g + (length (outputs (nodes g tmpl)) + 2) * m] \<and>
         nodes g' (Suc (next_node g + 2 * m)) =
           \<lparr>kind = kind (nodes g tmpl),
            inputs = inputs (nodes g tmpl) @
              [vs ! m, next_unique g + (length (outputs (nodes g tmpl)) + 2) * m],
            outputs =
              [Suc (next_unique g + (length (outputs (nodes g tmpl)) + 2) * m)..<
               Suc (next_unique g + (length (outputs (nodes g tmpl)) + 2) * m) +
                 length (outputs (nodes g tmpl))] @
              [Suc (next_unique g + (length (outputs (nodes g tmpl)) + 2) * m) +
                 length (outputs (nodes g tmpl))],
            scope = scope (nodes g tmpl), attr = attr (nodes g tmpl)\<rparr> \<and>
         node_of (vals g' (Suc (next_unique g + (length (outputs (nodes g tmpl)) + 2) * m) +
                    length (outputs (nodes g tmpl)))) = Suc (next_node g + 2 * m) \<and>
         type_of (vals g' (Suc (next_unique g + (length (outputs (nodes g tmpl)) + 2) * m) +
                    length (outputs (nodes g tmpl)))) = type_of (vals g (vs ! m))))"

text \<open>No value holds a name that the pass gives to a new value: the outputs of the observer
  node have no name, and the names of the values of the list, followed by \<^verbatim>\<open>.observed\<close>,
  differ from each other and from the names of the values of the graph.\<close>

definition namesFree :: "nid \<Rightarrow> graph \<Rightarrow> vid list \<Rightarrow> bool" where
  "namesFree tmpl g vs =
     ((\<forall>y\<in>set (outputs (nodes g tmpl)). y < next_unique g \<and> unique_name (vals g y) = None) \<and>
      distinct (map (uniqueName g) vs) \<and>
      (\<forall>v\<in>set vs. \<forall>x<next_unique g.
         unique_name (vals g x) \<noteq> Some (uniqueName g v @ ''.observed'')))"

text \<open>The names in \<open>g'\<close>: the values of \<open>g\<close> have the names that they had, the constants
  hold the names of the values of the list, the new outputs of the clones have these names
  followed by \<^verbatim>\<open>.observed\<close>, and the other new values have no name.\<close>

definition observer_names :: "nid \<Rightarrow> graph \<Rightarrow> vid list \<Rightarrow> graph \<Rightarrow> bool" where
  "observer_names tmpl g vs g' =
     ((\<forall>x<next_unique g. unique_name (vals g' x) = unique_name (vals g x)) \<and>
      (\<forall>x. next_unique g \<le> x \<and> x < next_unique g' \<longrightarrow>
         unique_name (vals g' x) = None \<or>
         (\<exists>v\<in>set vs. unique_name (vals g' x) = Some (uniqueName g v @ ''.observed''))) \<and>
      (\<forall>m<length vs.
         attr (nodes g' (next_node g + 2 * m)) = Some (IString (uniqueName g (vs ! m))) \<and>
         unique_name (vals g' (Suc (next_unique g + (length (outputs (nodes g tmpl)) + 2) * m) +
                    length (outputs (nodes g tmpl)))) =
           Some (uniqueName g (vs ! m) @ ''.observed'')))"

lemma observers_for_Nil: "observers_for tmpl g [] g"
  by (simp add: observers_for_def)

lemma observer_names_Nil: "observer_names tmpl g [] g"
  by (auto simp: observer_names_def)

lemma observers_for_one:
  assumes "tmpl < next_node g" and "v < next_unique g"
    and "nodes g' = nodes (observerAdded v tmpl ip g)"
    and "vals g' = vals (observerAdded v tmpl ip g)"
    and "next_node g' = next_node (observerAdded v tmpl ip g)"
    and "next_unique g' = next_unique (observerAdded v tmpl ip g)"
  shows "observers_for tmpl g [v] g'"
  using assms(1,2) unfolding observers_for_def assms(3-6)
  by (simp add: observerAdded_sel observerAdded_old_nodes observerAdded_old_vals
      observerAdded_constant observerAdded_clone observerAdded_new_val)

lemma observer_names_one:
  assumes "tmpl < next_node g" and "v < next_unique g" and "namesFree tmpl g [v]"
    and "nodes g' = nodes (observerAdded v tmpl ip g)"
    and "vals g' = vals (observerAdded v tmpl ip g)"
    and "next_unique g' = next_unique (observerAdded v tmpl ip g)"
  shows "observer_names tmpl g [v] g'"
proof -
  have o: "\<forall>y\<in>set (outputs (nodes g tmpl)). y < next_unique g \<and> unique_name (vals g y) = None"
    and f: "\<forall>x<next_unique g. unique_name (vals g x) \<noteq> Some (uniqueName g v @ ''.observed'')"
    using assms(3) by (simp_all add: namesFree_def)
  show ?thesis
    unfolding observer_names_def assms(4-6) observerAdded_names [OF assms(1,2) o f]
    using assms(1) by (auto simp: observerAdded_sel observerAdded_constant)
qed

lemma observers_for_append:
  assumes 1: "observers_for tmpl g vs g1" and 2: "observers_for tmpl g1 ws g2"
    and t: "tmpl < next_node g" and v: "\<forall>w\<in>set ws. w < next_unique g"
  shows "observers_for tmpl g (vs @ ws) g2"
proof -
  define T where "T = length (outputs (nodes g tmpl))"
  have n1: "next_node g1 = next_node g + 2 * length vs"
    and u1: "next_unique g1 = next_unique g + (T + 2) * length vs"
    and f1: "\<forall>i<next_node g. nodes g1 i = nodes g i"
    and w1: "\<forall>x<next_unique g. node_of (vals g1 x) = node_of (vals g x) \<and>
         type_of (vals g1 x) = type_of (vals g x)"
    using 1 by (simp_all add: observers_for_def T_def)
  have tm: "nodes g1 tmpl = nodes g tmpl"
    using f1 t by simp
  have vv: "type_of (vals g1 w) = type_of (vals g w)" if "w \<in> set ws" for w
    using w1 v that by simp
  have n2: "next_node g2 = next_node g1 + 2 * length ws"
    and u2: "next_unique g2 = next_unique g1 + (T + 2) * length ws"
    and f2: "\<forall>i<next_node g1. nodes g2 i = nodes g1 i"
    and w2: "\<forall>x<next_unique g1. node_of (vals g2 x) = node_of (vals g1 x) \<and>
         type_of (vals g2 x) = type_of (vals g1 x)"
    using 2 by (simp_all add: observers_for_def T_def tm)
  have a: "next_node g2 = next_node g + 2 * length (vs @ ws)"
    "next_unique g2 = next_unique g + (T + 2) * length (vs @ ws)"
    by (simp_all add: n1 n2 u1 u2 algebra_simps)
  have b: "\<forall>i<next_node g. nodes g2 i = nodes g i"
    "\<forall>x<next_unique g. node_of (vals g2 x) = node_of (vals g x) \<and>
         type_of (vals g2 x) = type_of (vals g x)"
    using f1 f2 w1 w2 by (simp_all add: n1 u1)
  have c: "kind (nodes g2 (next_node g + 2 * m)) = ''prim::Constant'' \<and>
      inputs (nodes g2 (next_node g + 2 * m)) = [] \<and>
      outputs (nodes g2 (next_node g + 2 * m)) = [next_unique g + (T + 2) * m] \<and>
      nodes g2 (Suc (next_node g + 2 * m)) =
        \<lparr>kind = kind (nodes g tmpl),
         inputs = inputs (nodes g tmpl) @ [(vs @ ws) ! m, next_unique g + (T + 2) * m],
         outputs = [Suc (next_unique g + (T + 2) * m)..<Suc (next_unique g + (T + 2) * m) + T] @
           [Suc (next_unique g + (T + 2) * m) + T],
         scope = scope (nodes g tmpl), attr = attr (nodes g tmpl)\<rparr> \<and>
      node_of (vals g2 (Suc (next_unique g + (T + 2) * m) + T)) = Suc (next_node g + 2 * m) \<and>
      type_of (vals g2 (Suc (next_unique g + (T + 2) * m) + T)) =
        type_of (vals g ((vs @ ws) ! m))"
    if "m < length (vs @ ws)" for m
  proof (cases "m < length vs")
    case True
    then have "Suc m \<le> length vs" by simp
    then have "(T + 2) * Suc m \<le> (T + 2) * length vs"
      by (rule mult_le_mono2)
    then have "Suc (next_unique g + (T + 2) * m) + T < next_unique g1"
      by (simp add: u1)
    moreover have "next_node g + 2 * m < next_node g1" "Suc (next_node g + 2 * m) < next_node g1"
      using True by (simp_all add: n1)
    ultimately have "nodes g2 (next_node g + 2 * m) = nodes g1 (next_node g + 2 * m)"
      "nodes g2 (Suc (next_node g + 2 * m)) = nodes g1 (Suc (next_node g + 2 * m))"
      "node_of (vals g2 (Suc (next_unique g + (T + 2) * m) + T)) =
        node_of (vals g1 (Suc (next_unique g + (T + 2) * m) + T))"
      "type_of (vals g2 (Suc (next_unique g + (T + 2) * m) + T)) =
        type_of (vals g1 (Suc (next_unique g + (T + 2) * m) + T))"
      using f2 w2 by simp_all
    with True show ?thesis
      using 1 by (simp add: observers_for_def T_def nth_append)
  next
    case False
    define k where "k = m - length vs"
    have m: "m = length vs + k" and k: "k < length ws"
      using False that by (simp_all add: k_def)
    have i: "next_node g + 2 * m = next_node g1 + 2 * k"
      "next_unique g + (T + 2) * m = next_unique g1 + (T + 2) * k"
      by (simp_all add: m n1 u1 algebra_simps)
    have w: "ws ! k \<in> set ws"
      using k by simp
    have "(vs @ ws) ! m = ws ! k"
      by (simp add: m)
    then show ?thesis
      unfolding i using 2 k
      by (simp add: observers_for_def T_def tm vv [OF w])
  qed
  show ?thesis
    unfolding observers_for_def T_def [symmetric]
    using a b c by blast
qed

lemma uniqueName_cong:
  "unique_name (vals g' v) = unique_name (vals g v) \<Longrightarrow> uniqueName g' v = uniqueName g v"
  by (simp add: uniqueName_def)

lemma observer_names_append:
  assumes s1: "observers_for tmpl g vs g1" and s2: "observers_for tmpl g1 ws g2"
    and 1: "observer_names tmpl g vs g1" and 2: "observer_names tmpl g1 ws g2"
    and t: "tmpl < next_node g" and v: "\<forall>w\<in>set ws. w < next_unique g"
  shows "observer_names tmpl g (vs @ ws) g2"
proof -
  define T where "T = length (outputs (nodes g tmpl))"
  have n1: "next_node g1 = next_node g + 2 * length vs"
    and u1: "next_unique g1 = next_unique g + (T + 2) * length vs"
    and f1: "\<forall>i<next_node g. nodes g1 i = nodes g i"
    using s1 by (simp_all add: observers_for_def T_def)
  have tm: "nodes g1 tmpl = nodes g tmpl"
    using f1 t by simp
  have u2: "next_unique g2 = next_unique g1 + (T + 2) * length ws"
    and f2: "\<forall>i<next_node g1. nodes g2 i = nodes g1 i"
    using s2 by (simp_all add: observers_for_def T_def tm)
  have o1: "\<forall>x<next_unique g. unique_name (vals g1 x) = unique_name (vals g x)"
    and r1: "\<forall>x. next_unique g \<le> x \<and> x < next_unique g1 \<longrightarrow>
         unique_name (vals g1 x) = None \<or>
         (\<exists>v\<in>set vs. unique_name (vals g1 x) = Some (uniqueName g v @ ''.observed''))"
    using 1 by (simp_all add: observer_names_def)
  have o2: "\<forall>x<next_unique g1. unique_name (vals g2 x) = unique_name (vals g1 x)"
    and r2: "\<forall>x. next_unique g1 \<le> x \<and> x < next_unique g2 \<longrightarrow>
         unique_name (vals g2 x) = None \<or>
         (\<exists>v\<in>set ws. unique_name (vals g2 x) = Some (uniqueName g1 v @ ''.observed''))"
    using 2 by (simp_all add: observer_names_def)
  have un: "uniqueName g1 w = uniqueName g w" if "w \<in> set ws" for w
    using o1 v that by (intro uniqueName_cong) simp
  have a: "\<forall>x<next_unique g. unique_name (vals g2 x) = unique_name (vals g x)"
    using o1 o2 by (simp add: u1)
  have b: "unique_name (vals g2 x) = None \<or>
      (\<exists>v\<in>set (vs @ ws). unique_name (vals g2 x) = Some (uniqueName g v @ ''.observed''))"
    if "next_unique g \<le> x \<and> x < next_unique g2" for x
  proof (cases "x < next_unique g1")
    case True
    with o2 have "unique_name (vals g2 x) = unique_name (vals g1 x)"
      by simp
    with r1 that True show ?thesis
      by auto
  next
    case False
    with r2 that have "unique_name (vals g2 x) = None \<or>
        (\<exists>v\<in>set ws. unique_name (vals g2 x) = Some (uniqueName g1 v @ ''.observed''))"
      by simp
    then show ?thesis
      using un by auto
  qed
  have c: "attr (nodes g2 (next_node g + 2 * m)) = Some (IString (uniqueName g ((vs @ ws) ! m))) \<and>
      unique_name (vals g2 (Suc (next_unique g + (T + 2) * m) + T)) =
        Some (uniqueName g ((vs @ ws) ! m) @ ''.observed'')"
    if "m < length (vs @ ws)" for m
  proof (cases "m < length vs")
    case True
    then have "Suc m \<le> length vs" by simp
    then have "(T + 2) * Suc m \<le> (T + 2) * length vs"
      by (rule mult_le_mono2)
    then have "Suc (next_unique g + (T + 2) * m) + T < next_unique g1"
      by (simp add: u1)
    moreover have "next_node g + 2 * m < next_node g1"
      using True by (simp add: n1)
    ultimately have "nodes g2 (next_node g + 2 * m) = nodes g1 (next_node g + 2 * m)"
      "unique_name (vals g2 (Suc (next_unique g + (T + 2) * m) + T)) =
        unique_name (vals g1 (Suc (next_unique g + (T + 2) * m) + T))"
      using f2 o2 by simp_all
    with True show ?thesis
      using 1 by (simp add: observer_names_def T_def nth_append)
  next
    case False
    define k where "k = m - length vs"
    have m: "m = length vs + k" and k: "k < length ws"
      using False that by (simp_all add: k_def)
    have i: "next_node g + 2 * m = next_node g1 + 2 * k"
      "next_unique g + (T + 2) * m = next_unique g1 + (T + 2) * k"
      by (simp_all add: m n1 u1 algebra_simps)
    have w: "ws ! k \<in> set ws"
      using k by simp
    have "(vs @ ws) ! m = ws ! k"
      by (simp add: m)
    then show ?thesis
      unfolding i using 2 k
      by (simp add: observer_names_def T_def tm un [OF w])
  qed
  show ?thesis
    unfolding observer_names_def T_def [symmetric]
    using a b c by blast
qed

lemma namesFree_prefix: "namesFree tmpl g (vs @ ws) \<Longrightarrow> namesFree tmpl g vs"
  by (simp add: namesFree_def)

text \<open>The names of the values that are still to be observed stay free.\<close>

lemma namesFree_suffix:
  assumes h: "namesFree tmpl g (vs @ ws)"
    and s: "observers_for tmpl g vs g1" and n: "observer_names tmpl g vs g1"
    and t: "tmpl < next_node g" and v: "\<forall>w\<in>set ws. w < next_unique g"
  shows "namesFree tmpl g1 ws"
proof -
  have f1: "\<forall>i<next_node g. nodes g1 i = nodes g i"
    and u1: "next_unique g \<le> next_unique g1"
    using s by (simp_all add: observers_for_def)
  have tm: "nodes g1 tmpl = nodes g tmpl"
    using f1 t by simp
  have o1: "\<forall>x<next_unique g. unique_name (vals g1 x) = unique_name (vals g x)"
    and r1: "\<forall>x. next_unique g \<le> x \<and> x < next_unique g1 \<longrightarrow>
         unique_name (vals g1 x) = None \<or>
         (\<exists>v\<in>set vs. unique_name (vals g1 x) = Some (uniqueName g v @ ''.observed''))"
    using n by (simp_all add: observer_names_def)
  have un: "uniqueName g1 w = uniqueName g w" if "w \<in> set ws" for w
    using o1 v that by (intro uniqueName_cong) simp
  have h1: "\<forall>y\<in>set (outputs (nodes g tmpl)). y < next_unique g \<and> unique_name (vals g y) = None"
    and h2: "distinct (map (uniqueName g) (vs @ ws))"
    and h3: "\<forall>v\<in>set (vs @ ws). \<forall>x<next_unique g.
         unique_name (vals g x) \<noteq> Some (uniqueName g v @ ''.observed'')"
    using h by (simp_all add: namesFree_def)
  have a: "\<forall>y\<in>set (outputs (nodes g1 tmpl)). y < next_unique g1 \<and> unique_name (vals g1 y) = None"
    unfolding tm using h1 o1 u1 by fastforce
  have e: "map (uniqueName g1) ws = map (uniqueName g) ws"
    by (rule map_cong) (simp_all add: un)
  have b: "distinct (map (uniqueName g1) ws)"
    unfolding e using h2 by simp
  have c: "unique_name (vals g1 x) \<noteq> Some (uniqueName g1 w @ ''.observed'')"
    if w: "w \<in> set ws" and x: "x < next_unique g1" for w x
  proof (cases "x < next_unique g")
    case True
    with o1 h3 w show ?thesis
      by (simp add: un [OF w])
  next
    case False
    have d: "uniqueName g v' \<noteq> uniqueName g w" if "v' \<in> set vs" for v'
      using h2 w that by auto
    from False x r1 have "unique_name (vals g1 x) = None \<or>
        (\<exists>v\<in>set vs. unique_name (vals g1 x) = Some (uniqueName g v @ ''.observed''))"
      by simp
    then show ?thesis
      using d by (auto simp: un [OF w])
  qed
  show ?thesis
    unfolding namesFree_def using a b c by blast
qed

subsection \<open>The traversal of the observer pass after the input observers were linked\<close>

lemma nt_blocks_linkBefore: "nt_blocks (linkBefore_n x a t) = map (linkBefore_b x a) (nt_blocks t)"
  by (cases t) simp

lemma unskipped_linkBefore:
  assumes "skipped G ofi x"
  shows "filter (\<lambda>t. \<not> skipped G ofi (nt_id t)) (blk_nodes (linkBefore_b x a b)) =
     map (linkBefore_n x a) (filter (\<lambda>t. \<not> skipped G ofi (nt_id t)) (blk_nodes b))"
proof (cases b)
  case (Blk p ts r)
  have "filter (\<lambda>t. \<not> skipped G ofi (nt_id t))
      (concat (map (\<lambda>t. if nt_id t = a then [NT x [], linkBefore_n x a t]
                          else [linkBefore_n x a t]) ts)) =
      map (linkBefore_n x a) (filter (\<lambda>t. \<not> skipped G ofi (nt_id t)) ts)"
    using assms by (induction ts) simp_all
  with Blk assms show ?thesis by simp
qed

lemma observeOrder_linkBefore:
  assumes "skipped G ofi x"
  shows "filter (\<lambda>n. \<not> skipped G ofi n) (observeOrder G ofi (map (linkBefore_b x a) stack)) =
     filter (\<lambda>n. \<not> skipped G ofi n) (observeOrder G ofi stack)"
  using assms
proof (induction G ofi stack rule: observeOrder.induct)
  case (1 g ofi)
  show ?case by simp
next
  case (2 g ofi b rest)
  have sk: "skipped g ofi x"
    using "2.prems" .
  define us where "us = filter (\<lambda>t. \<not> skipped g ofi (nt_id t)) (blk_nodes b)"
  have f: "filter (\<lambda>t. \<not> skipped g ofi (nt_id t)) (blk_nodes (linkBefore_b x a b)) =
      map (linkBefore_n x a) us"
    unfolding us_def using sk by (rule unskipped_linkBefore)
  have "concat (map nt_blocks (map (linkBefore_n x a) ts)) =
      map (linkBefore_b x a) (concat (map nt_blocks ts))" for ts
    by (induction ts) (simp_all add: nt_blocks_linkBefore)
  then have st: "rev (concat (map nt_blocks (map (linkBefore_n x a) us))) @
      map (linkBefore_b x a) rest =
      map (linkBefore_b x a) (rev (concat (map nt_blocks us)) @ rest)"
    by (simp only: rev_map map_append)
  have top: "filter (\<lambda>n. \<not> skipped g ofi n) (map nt_id (blk_nodes (linkBefore_b x a b))) =
      filter (\<lambda>n. \<not> skipped g ofi n) (map nt_id (blk_nodes b))"
    by (simp add: filter_map o_def f [unfolded o_def] us_def)
  have ih: "filter (\<lambda>n. \<not> skipped g ofi n)
      (observeOrder g ofi (map (linkBefore_b x a) (rev (concat (map nt_blocks us)) @ rest))) =
      filter (\<lambda>n. \<not> skipped g ofi n) (observeOrder g ofi (rev (concat (map nt_blocks us)) @ rest))"
    using "2.IH" [OF sk] by (simp add: us_def)
  have "observeOrder g ofi (map (linkBefore_b x a) (b # rest)) =
      map nt_id (blk_nodes (linkBefore_b x a b)) @
      observeOrder g ofi (map (linkBefore_b x a) (rev (concat (map nt_blocks us)) @ rest))"
    by (simp only: list.map observeOrder.simps f st)
  moreover have "observeOrder g ofi (b # rest) =
      map nt_id (blk_nodes b) @ observeOrder g ofi (rev (concat (map nt_blocks us)) @ rest)"
    by (simp only: observeOrder.simps us_def)
  ultimately show ?case
    by (simp only: filter_append top ih)
qed

lemma collectBlocks_linkBefore:
  assumes "skipped G ofi x"
  shows "collectBlocks G ofi [linkBefore_b x a b] vs = collectBlocks G ofi [b] vs"
  using observeOrder_linkBefore [OF assms, of a "[b]"]
  by (simp only: collectBlocks_values list.map)


lemma ids_b_set:
  "set (ids_b b) =
     nt_id ` set (blk_nodes b) \<union> set (concat (map ids_b (concat (map nt_blocks (blk_nodes b)))))"
proof -
  have "mset (ids_b b) =
      mset (map nt_id (blk_nodes b) @ concat (map ids_b (concat (map nt_blocks (blk_nodes b)))))"
    using ids_b_unfold [of b] by simp
  then have "set (ids_b b) =
      set (map nt_id (blk_nodes b) @ concat (map ids_b (concat (map nt_blocks (blk_nodes b)))))"
    by (rule mset_eq_setD)
  then show ?thesis
    by simp
qed

lemma ids_b_top: "nt_id ` set (blk_nodes b) \<subseteq> set (ids_b b)"
  by (subst ids_b_set) simp

lemma ids_b_sub:
  "set (concat (map ids_b (rev (concat (map nt_blocks (filter P (blk_nodes b))))))) \<subseteq> set (ids_b b)"
  by (subst ids_b_set) auto

lemma map_filter_cong:
  "\<forall>n\<in>set xs. P n = Q n \<and> f n = h n \<Longrightarrow> map f (filter P xs) = map h (filter Q xs)"
  by (induction xs) simp_all

lemma observeOrder_subset: "set (observeOrder G ofi stack) \<subseteq> set (concat (map ids_b stack))"
proof (induction G ofi stack rule: observeOrder.induct)
  case (1 g ofi)
  show ?case by simp
next
  case (2 g ofi b rest)
  have "set (concat (map ids_b (rev (concat (map nt_blocks
      (filter (\<lambda>t. \<not> skipped g ofi (nt_id t)) (blk_nodes b)))) @ rest)))
      \<subseteq> set (ids_b b) \<union> set (concat (map ids_b rest))"
    using ids_b_sub [of "\<lambda>t. \<not> skipped g ofi (nt_id t)" b] by auto
  with "2.IH" have "set (observeOrder g ofi (rev (concat (map nt_blocks
      (filter (\<lambda>t. \<not> skipped g ofi (nt_id t)) (blk_nodes b)))) @ rest))
      \<subseteq> set (ids_b b) \<union> set (concat (map ids_b rest))"
    by (rule subset_trans)
  moreover have "nt_id ` set (blk_nodes b) \<subseteq> set (ids_b b)"
    by (rule ids_b_top)
  ultimately show ?case
    unfolding observeOrder.simps by (simp add: le_supI1)
qed

lemma observeOrder_cong:
  assumes "\<forall>n\<in>set (concat (map ids_b stack)). skipped G ofi n = skipped G' ofi' n"
  shows "observeOrder G ofi stack = observeOrder G' ofi' stack"
  using assms
proof (induction G ofi stack rule: observeOrder.induct)
  case (1 g ofi)
  show ?case by simp
next
  case (2 g ofi b rest)
  have top: "\<forall>t\<in>set (blk_nodes b). skipped g ofi (nt_id t) = skipped G' ofi' (nt_id t)"
    using "2.prems" ids_b_top [of b] by auto
  then have f: "filter (\<lambda>t. \<not> skipped g ofi (nt_id t)) (blk_nodes b) =
      filter (\<lambda>t. \<not> skipped G' ofi' (nt_id t)) (blk_nodes b)"
    by (simp cong: filter_cong)
  have "set (concat (map ids_b (rev (concat (map nt_blocks
      (filter (\<lambda>t. \<not> skipped g ofi (nt_id t)) (blk_nodes b)))) @ rest)))
      \<subseteq> set (concat (map ids_b (b # rest)))"
    using ids_b_sub [of "\<lambda>t. \<not> skipped g ofi (nt_id t)" b] by auto
  with "2.prems" have "\<forall>n\<in>set (concat (map ids_b (rev (concat (map nt_blocks
      (filter (\<lambda>t. \<not> skipped g ofi (nt_id t)) (blk_nodes b)))) @ rest))).
      skipped g ofi n = skipped G' ofi' n"
    by blast
  then have "observeOrder g ofi (rev (concat (map nt_blocks
      (filter (\<lambda>t. \<not> skipped g ofi (nt_id t)) (blk_nodes b)))) @ rest) =
      observeOrder G' ofi' (rev (concat (map nt_blocks
      (filter (\<lambda>t. \<not> skipped g ofi (nt_id t)) (blk_nodes b)))) @ rest)"
    by (rule "2.IH")
  then show ?case
    by (simp only: observeOrder.simps f)
qed

lemma collectBlocks_cong:
  assumes "\<forall>n\<in>set (concat (map ids_b stack)).
      skipped G ofi n = skipped G' ofi' n \<and> outputs (nodes G n) = outputs (nodes G' n)"
  shows "collectBlocks G ofi stack vs = collectBlocks G' ofi' stack vs"
proof -
  have o: "observeOrder G ofi stack = observeOrder G' ofi' stack"
    using assms by (intro observeOrder_cong) blast
  have "\<forall>n\<in>set (observeOrder G' ofi' stack).
      skipped G ofi n = skipped G' ofi' n \<and> outputs (nodes G n) = outputs (nodes G' n)"
    using assms observeOrder_subset [of G' ofi' stack] by blast
  then have "map (\<lambda>n. outputs (nodes G n))
      (filter (\<lambda>n. \<not> skipped G ofi n) (observeOrder G' ofi' stack)) =
      map (\<lambda>n. outputs (nodes G' n))
      (filter (\<lambda>n. \<not> skipped G' ofi' n) (observeOrder G' ofi' stack))"
    by (intro map_filter_cong) simp
  then show ?thesis
    by (simp only: collectBlocks_values o)
qed

lemma ids_linked:
  "n \<in> set (ids_n t) \<Longrightarrow> n = nt_id t \<or> list_ex (\<lambda>lr. n \<in> set (fst lr)) (lists_n t)"
  "n \<in> set (ids_b b) \<Longrightarrow> list_ex (\<lambda>lr. n \<in> set (fst lr)) (lists_b b)"
proof (induction t and b)
  case (NT i bs)
  then show ?case by (auto simp: list_ex_iff)
next
  case (Blk p ts r)
  then show ?case by (fastforce simp: list_ex_iff)
qed

lemma ids_inNodes: "n \<in> set (ids_b b) \<Longrightarrow> inNodes b n"
  by (simp add: inNodes_def ids_linked)

lemma param_node_linkBefore: "param_node (linkBefore_b x a b) = param_node b"
  by (cases b) simp

lemma param_node_linkAfter: "param_node (linkAfter_b x a b) = param_node b"
  by (cases b) simp


subsection \<open>The two loops of the observer pass\<close>

lemma inputObserved_sel:
  "block (inputObserved v tmpl ip g) =
     linkBefore_b (Suc (next_node g)) ip (block (observerAdded v tmpl ip g))"
  "nodes (inputObserved v tmpl ip g) = nodes (observerAdded v tmpl ip g)"
  "vals (inputObserved v tmpl ip g) = vals (observerAdded v tmpl ip g)"
  "next_node (inputObserved v tmpl ip g) = next_node (observerAdded v tmpl ip g)"
  "next_unique (inputObserved v tmpl ip g) = next_unique (observerAdded v tmpl ip g)"
  by (simp_all add: inputObserved_def Let_def relinked_sel)

lemma valueObserved_sel:
  "block (valueObserved tmpl v g) =
     linkAfter_b (Suc (next_node g))
       (node_of (vals (observerAdded v tmpl (node_of (vals g v)) g) v))
       (block (observerAdded v tmpl (node_of (vals g v)) g))"
  "nodes (valueObserved tmpl v g) = nodes (observerAdded v tmpl (node_of (vals g v)) g)"
  "vals (valueObserved tmpl v g) = vals (observerAdded v tmpl (node_of (vals g v)) g)"
  "next_node (valueObserved tmpl v g) = next_node (observerAdded v tmpl (node_of (vals g v)) g)"
  "next_unique (valueObserved tmpl v g) =
     next_unique (observerAdded v tmpl (node_of (vals g v)) g)"
  by (simp_all add: valueObserved_def Let_def relinked_sel)

lemma inputObserved_linked:
  assumes "tmpl < next_node g" and "inBlockList g ip"
  shows "inBlockList (inputObserved v tmpl ip g) i =
     (inBlockList g i \<or> i = next_node g \<or> i = Suc (next_node g))"
proof -
  have "inBlockList (inputObserved v tmpl ip g) i =
      (inBlockList (observerAdded v tmpl ip g) i \<or>
       (i = Suc (next_node g) \<and> inBlockList (observerAdded v tmpl ip g) ip))"
    by (simp add: inBlockList_def inputObserved_sel linked_linkBefore)
  then show ?thesis
    using assms by (auto simp: observerAdded_linked)
qed

lemma valueObserved_linked:
  assumes "tmpl < next_node g" and "v < next_unique g" and "inBlockList g (node_of (vals g v))"
  shows "inBlockList (valueObserved tmpl v g) i =
     (inBlockList g i \<or> i = next_node g \<or> i = Suc (next_node g))"
proof -
  have n: "node_of (vals (observerAdded v tmpl (node_of (vals g v)) g) v) = node_of (vals g v)"
    using assms(1,2) by (simp add: observerAdded_old_vals)
  have "inBlockList (valueObserved tmpl v g) i =
      (inBlockList (observerAdded v tmpl (node_of (vals g v)) g) i \<or>
       (i = Suc (next_node g) \<and>
        inBlockList (observerAdded v tmpl (node_of (vals g v)) g) (node_of (vals g v))))"
    by (simp add: inBlockList_def valueObserved_sel linked_linkAfter n)
  then show ?thesis
    using assms by (auto simp: observerAdded_linked)
qed

lemma allocated_inputObserved:
  assumes "tmpl < next_node g" and "inBlockList g ip" and "allocated g"
  shows "allocated (inputObserved v tmpl ip g)"
  using assms unfolding allocated_def [of "inputObserved v tmpl ip g"]
  by (auto simp: inputObserved_linked inputObserved_sel observerAdded_sel dest: allocated_lt)

lemma allocated_valueObserved:
  assumes "tmpl < next_node g" and "v < next_unique g" and "inBlockList g (node_of (vals g v))"
    and "allocated g"
  shows "allocated (valueObserved tmpl v g)"
  using assms unfolding allocated_def [of "valueObserved tmpl v g"]
  by (auto simp: valueObserved_linked valueObserved_sel observerAdded_sel dest: allocated_lt)

lemma ids_allocated:
  assumes "allocated g" and "n \<in> set (ids_b (block g))"
  shows "n < next_node g" and "inBlockList g n"
proof -
  show "inBlockList g n"
    unfolding inBlockList_def using assms(2) by (intro inNodes_linked ids_inNodes)
  with assms(1) show "n < next_node g"
    by (rule allocated_lt)
qed

text \<open>The traversal does not see the observers of the inputs: it collects the values that it
  collects in the graph before the loop over the inputs.\<close>

lemma collectBlocks_inputObserved:
  assumes t: "tmpl < next_node g" and a: "allocated g"
  shows "collectBlocks (inputObserved v tmpl ip g) (insert (Suc (next_node g)) ofi)
      [block (inputObserved v tmpl ip g)] [] = collectBlocks g ofi [block g] []"
proof -
  define g1 where "g1 = inputObserved v tmpl ip g"
  define ofi1 where "ofi1 = insert (Suc (next_node g)) ofi"
  have b: "block g1 =
      linkBefore_b (Suc (next_node g)) ip (linkBefore_b (next_node g) ip (block g))"
    using t by (simp add: g1_def inputObserved_sel observerAdded_sel)
  have s1: "skipped g1 ofi1 (Suc (next_node g))"
    by (simp add: skipped_def ofi1_def)
  have s2: "skipped g1 ofi1 (next_node g)"
    using t
    by (simp add: skipped_def outputsNeedToBeObserved_def g1_def inputObserved_sel
        observerAdded_constant)
  have "collectBlocks g1 ofi1 [block g1] [] = collectBlocks g1 ofi1 [block g] []"
    unfolding b
    by (simp only: collectBlocks_linkBefore [OF s1] collectBlocks_linkBefore [OF s2])
  also have "\<dots> = collectBlocks g ofi [block g] []"
  proof (rule collectBlocks_cong, rule ballI)
    fix n
    assume "n \<in> set (concat (map ids_b [block g]))"
    then have "n \<in> set (ids_b (block g))"
      by simp
    then have n: "n < next_node g"
      using a by (intro ids_allocated)
    then have "nodes g1 n = nodes g n"
      using t by (simp add: g1_def inputObserved_sel observerAdded_old_nodes)
    with n show "skipped g1 ofi1 n = skipped g ofi n \<and>
        outputs (nodes g1 n) = outputs (nodes g n)"
      by (simp add: skipped_def outputsNeedToBeObserved_def ofi1_def)
  qed
  finally show ?thesis
    by (simp only: g1_def ofi1_def)
qed

lemma observeInputs_eq:
  assumes "allocated g" and "inBlockList g ip" and "tmpl < next_node g"
    and "param_node (block g) < next_node g"
    and "\<forall>idx\<in>set idxs. graph_inputs g ! idx < next_unique g"
  shows "\<exists>ofi' g'. observeInputs tmpl ip idxs ofi g = (Inr ofi', g') \<and>
     observers_for tmpl g
       (filter (\<lambda>v. isSubtypeOfTensor (type_of (vals g v)))
         (map (\<lambda>idx. graph_inputs g ! idx) idxs)) g' \<and>
     (namesFree tmpl g
       (filter (\<lambda>v. isSubtypeOfTensor (type_of (vals g v)))
         (map (\<lambda>idx. graph_inputs g ! idx) idxs)) \<longrightarrow>
      observer_names tmpl g
       (filter (\<lambda>v. isSubtypeOfTensor (type_of (vals g v)))
         (map (\<lambda>idx. graph_inputs g ! idx) idxs)) g') \<and>
     allocated g' \<and> (\<forall>i. inBlockList g i \<longrightarrow> inBlockList g' i) \<and>
     collectBlocks g' ofi' [block g'] [] = collectBlocks g ofi [block g] []"
  using assms
proof (induction idxs arbitrary: g ofi)
  case Nil
  then show ?case
    by (simp add: observers_for_Nil observer_names_Nil)
next
  case (Cons idx rest)
  define v where "v = graph_inputs g ! idx"
  define L where "L = filter (\<lambda>v. isSubtypeOfTensor (type_of (vals g v)))
      (map (\<lambda>idx. graph_inputs g ! idx) rest)"
  have v: "v < next_unique g"
    using Cons.prems(5) by (simp add: v_def)
  have r: "\<forall>i\<in>set rest. graph_inputs g ! i < next_unique g"
    using Cons.prems(5) by simp
  have Lu: "\<forall>w\<in>set L. w < next_unique g"
    using r by (auto simp: L_def)
  show ?case
  proof (cases "isSubtypeOfTensor (type_of (vals g v))")
    case False
    have "\<exists>ofi' g'. observeInputs tmpl ip rest ofi g = (Inr ofi', g') \<and>
        observers_for tmpl g L g' \<and> (namesFree tmpl g L \<longrightarrow> observer_names tmpl g L g') \<and>
        allocated g' \<and> (\<forall>i. inBlockList g i \<longrightarrow> inBlockList g' i) \<and>
        collectBlocks g' ofi' [block g'] [] = collectBlocks g ofi [block g] []"
      unfolding L_def using Cons.prems(1-4) r by (rule Cons.IH)
    with False show ?thesis
      by (simp add: v_def [symmetric] L_def)
  next
    case True
    define g1 where "g1 = inputObserved v tmpl ip g"
    define ofi1 where "ofi1 = insert (Suc (next_node g)) ofi"
    define T where "T = length (outputs (nodes g tmpl))"
    have step: "observeInputs tmpl ip (idx # rest) ofi g = observeInputs tmpl ip rest ofi1 g1"
      using True inputObserve_eq [OF Cons.prems(2,1,3), of v]
      by (simp add: v_def [symmetric] g1_def ofi1_def)
    have nn: "next_node g1 = Suc (Suc (next_node g))"
      and nu: "next_unique g1 = Suc (Suc (next_unique g + T))"
      using Cons.prems(3) by (simp_all add: g1_def T_def inputObserved_sel observerAdded_sel)
    have on: "nodes g1 i = nodes g i" if "i < next_node g" for i
      using Cons.prems(3) that by (simp add: g1_def inputObserved_sel observerAdded_old_nodes)
    have ov: "type_of (vals g1 x) = type_of (vals g x)" if "x < next_unique g" for x
      using Cons.prems(3) that by (simp add: g1_def inputObserved_sel observerAdded_old_vals)
    have mono: "inBlockList g1 i" if "inBlockList g i" for i
      using Cons.prems(2,3) that by (simp add: g1_def inputObserved_linked)
    have a1: "allocated g1"
      unfolding g1_def using Cons.prems(3,2,1) by (rule allocated_inputObserved)
    have p1: "param_node (block g1) = param_node (block g)"
      using Cons.prems(3)
      by (simp add: g1_def inputObserved_sel observerAdded_sel param_node_linkBefore)
    have gi: "graph_inputs g1 = graph_inputs g"
      using Cons.prems(4) by (simp add: graph_inputs_def p1 on)
    have one: "observers_for tmpl g [v] g1"
      using Cons.prems(3) v by (rule observers_for_one) (simp_all add: g1_def inputObserved_sel)
    have "\<exists>ofi' g'. observeInputs tmpl ip rest ofi1 g1 = (Inr ofi', g') \<and>
        observers_for tmpl g1
          (filter (\<lambda>v. isSubtypeOfTensor (type_of (vals g1 v)))
            (map (\<lambda>idx. graph_inputs g1 ! idx) rest)) g' \<and>
        (namesFree tmpl g1
          (filter (\<lambda>v. isSubtypeOfTensor (type_of (vals g1 v)))
            (map (\<lambda>idx. graph_inputs g1 ! idx) rest)) \<longrightarrow>
         observer_names tmpl g1
          (filter (\<lambda>v. isSubtypeOfTensor (type_of (vals g1 v)))
            (map (\<lambda>idx. graph_inputs g1 ! idx) rest)) g') \<and>
        allocated g' \<and> (\<forall>i. inBlockList g1 i \<longrightarrow> inBlockList g' i) \<and>
        collectBlocks g' ofi' [block g'] [] = collectBlocks g1 ofi1 [block g1] []"
    proof (rule Cons.IH)
      show "allocated g1" by (rule a1)
      show "inBlockList g1 ip" using Cons.prems(2) by (rule mono)
      show "tmpl < next_node g1" using Cons.prems(3) by (simp add: nn)
      show "param_node (block g1) < next_node g1" using Cons.prems(4) by (simp add: nn p1)
      show "\<forall>idx\<in>set rest. graph_inputs g1 ! idx < next_unique g1"
        using r by (simp add: gi nu less_SucI trans_less_add1)
    qed
    moreover have f: "filter (\<lambda>v. isSubtypeOfTensor (type_of (vals g1 v)))
          (map (\<lambda>idx. graph_inputs g1 ! idx) rest) = L"
      unfolding gi L_def using r by (intro filter_cong refl) (auto simp: ov)
    ultimately obtain ofi' g' where run: "observeInputs tmpl ip rest ofi1 g1 = (Inr ofi', g')"
      and obs: "observers_for tmpl g1 L g'"
      and nam: "namesFree tmpl g1 L \<longrightarrow> observer_names tmpl g1 L g'"
      and a': "allocated g'" and m': "\<forall>i. inBlockList g1 i \<longrightarrow> inBlockList g' i"
      and c': "collectBlocks g' ofi' [block g'] [] = collectBlocks g1 ofi1 [block g1] []"
      by auto
    have e1: "observers_for tmpl g ([v] @ L) g'"
      using one obs Cons.prems(3) Lu by (rule observers_for_append)
    have e2: "observer_names tmpl g ([v] @ L) g'" if h: "namesFree tmpl g ([v] @ L)"
    proof -
      have "namesFree tmpl g [v]"
        using h by (rule namesFree_prefix)
      with Cons.prems(3) v have n1: "observer_names tmpl g [v] g1"
        by (rule observer_names_one) (simp_all add: g1_def inputObserved_sel)
      have "namesFree tmpl g1 L"
        using h one n1 Cons.prems(3) Lu by (rule namesFree_suffix)
      with nam have "observer_names tmpl g1 L g'"
        by simp
      with one obs n1 show ?thesis
        using Cons.prems(3) Lu by (rule observer_names_append)
    qed
    have e3: "collectBlocks g' ofi' [block g'] [] = collectBlocks g ofi [block g] []"
      unfolding c' g1_def ofi1_def using Cons.prems(3,1) by (rule collectBlocks_inputObserved)
    have e4: "\<forall>i. inBlockList g i \<longrightarrow> inBlockList g' i"
      using m' mono by blast
    have e5: "observeInputs tmpl ip (idx # rest) ofi g = (Inr ofi', g')"
      by (simp only: step run)
    have l: "filter (\<lambda>v. isSubtypeOfTensor (type_of (vals g v)))
          (map (\<lambda>idx. graph_inputs g ! idx) (idx # rest)) = [v] @ L"
      using True by (simp add: v_def L_def)
    show ?thesis
      unfolding l using e1 e2 e3 e4 e5 a' by blast
  qed
qed

lemma observeValues_eq:
  assumes "allocated g" and "tmpl < next_node g"
    and "\<forall>v\<in>set vs. v < next_unique g \<and> inBlockList g (node_of (vals g v))"
  shows "\<exists>g'. forEach (observeValue tmpl) vs g = (Inr (), g') \<and>
     observers_for tmpl g (filter (\<lambda>v. isSubtypeOfTensor (type_of (vals g v))) vs) g' \<and>
     (namesFree tmpl g (filter (\<lambda>v. isSubtypeOfTensor (type_of (vals g v))) vs) \<longrightarrow>
      observer_names tmpl g (filter (\<lambda>v. isSubtypeOfTensor (type_of (vals g v))) vs) g')"
  using assms
proof (induction vs arbitrary: g)
  case Nil
  then show ?case
    by (simp add: observers_for_Nil observer_names_Nil)
next
  case (Cons v rest)
  define L where "L = filter (\<lambda>v. isSubtypeOfTensor (type_of (vals g v))) rest"
  have v: "v < next_unique g" and l: "inBlockList g (node_of (vals g v))"
    using Cons.prems(3) by simp_all
  have r: "\<forall>x\<in>set rest. x < next_unique g \<and> inBlockList g (node_of (vals g x))"
    using Cons.prems(3) by simp
  have Lu: "\<forall>w\<in>set L. w < next_unique g"
    using r by (simp add: L_def)
  have step: "observeValue tmpl v g =
      (Inr (), if isSubtypeOfTensor (type_of (vals g v)) then valueObserved tmpl v g else g)"
    using l Cons.prems(1,2) v by (rule observeValue_eq)
  show ?case
  proof (cases "isSubtypeOfTensor (type_of (vals g v))")
    case False
    have "\<exists>g'. forEach (observeValue tmpl) rest g = (Inr (), g') \<and>
        observers_for tmpl g L g' \<and> (namesFree tmpl g L \<longrightarrow> observer_names tmpl g L g')"
      unfolding L_def using Cons.prems(1,2) r by (rule Cons.IH)
    with False show ?thesis
      by (simp add: step L_def)
  next
    case True
    define g1 where "g1 = valueObserved tmpl v g"
    define T where "T = length (outputs (nodes g tmpl))"
    have nn: "next_node g1 = Suc (Suc (next_node g))"
      and nu: "next_unique g1 = Suc (Suc (next_unique g + T))"
      using Cons.prems(2) by (simp_all add: g1_def T_def valueObserved_sel observerAdded_sel)
    have ov: "type_of (vals g1 x) = type_of (vals g x)"
      "node_of (vals g1 x) = node_of (vals g x)" if "x < next_unique g" for x
      using Cons.prems(2) that
      by (simp_all add: g1_def valueObserved_sel observerAdded_old_vals)
    have mono: "inBlockList g1 i" if "inBlockList g i" for i
      using Cons.prems(2) v l that by (simp add: g1_def valueObserved_linked)
    have a1: "allocated g1"
      unfolding g1_def using Cons.prems(2) v l Cons.prems(1) by (rule allocated_valueObserved)
    have one: "observers_for tmpl g [v] g1"
      using Cons.prems(2) v by (rule observers_for_one) (simp_all add: g1_def valueObserved_sel)
    have "\<exists>g'. forEach (observeValue tmpl) rest g1 = (Inr (), g') \<and>
        observers_for tmpl g1 (filter (\<lambda>v. isSubtypeOfTensor (type_of (vals g1 v))) rest) g' \<and>
        (namesFree tmpl g1 (filter (\<lambda>v. isSubtypeOfTensor (type_of (vals g1 v))) rest) \<longrightarrow>
         observer_names tmpl g1
           (filter (\<lambda>v. isSubtypeOfTensor (type_of (vals g1 v))) rest) g')"
    proof (rule Cons.IH)
      show "allocated g1" by (rule a1)
      show "tmpl < next_node g1" using Cons.prems(2) by (simp add: nn)
      show "\<forall>x\<in>set rest. x < next_unique g1 \<and> inBlockList g1 (node_of (vals g1 x))"
        using r by (simp add: nu ov mono less_SucI trans_less_add1)
    qed
    moreover have f: "filter (\<lambda>v. isSubtypeOfTensor (type_of (vals g1 v))) rest = L"
      unfolding L_def using r by (intro filter_cong refl) (simp add: ov)
    ultimately obtain g' where run: "forEach (observeValue tmpl) rest g1 = (Inr (), g')"
      and obs: "observers_for tmpl g1 L g'"
      and nam: "namesFree tmpl g1 L \<longrightarrow> observer_names tmpl g1 L g'"
      by auto
    have e1: "observers_for tmpl g ([v] @ L) g'"
      using one obs Cons.prems(2) Lu by (rule observers_for_append)
    have e2: "observer_names tmpl g ([v] @ L) g'" if h: "namesFree tmpl g ([v] @ L)"
    proof -
      have "namesFree tmpl g [v]"
        using h by (rule namesFree_prefix)
      with Cons.prems(2) v have n1: "observer_names tmpl g [v] g1"
        by (rule observer_names_one) (simp_all add: g1_def valueObserved_sel)
      have "namesFree tmpl g1 L"
        using h one n1 Cons.prems(2) Lu by (rule namesFree_suffix)
      with nam have "observer_names tmpl g1 L g'"
        by simp
      with one obs n1 show ?thesis
        using Cons.prems(2) Lu by (rule observer_names_append)
    qed
    have e5: "forEach (observeValue tmpl) (v # rest) g = (Inr (), g')"
      using True by (simp add: step run g1_def [symmetric])
    have l: "filter (\<lambda>v. isSubtypeOfTensor (type_of (vals g v))) (v # rest) = [v] @ L"
      using True by (simp add: L_def)
    show ?thesis
      unfolding l using e1 e2 e5 by blast
  qed
qed

text \<open>The invariants of the IR on the stores of the model: the nodes that are linked and
  the parameter node of the graph are nodes of the store, the inputs of the graph and the
  outputs of the nodes of the blocks are values of the store, and \<^verbatim>\<open>v->node()\<close> of an output
  of a node is this node.\<close>

definition wellformed :: "graph \<Rightarrow> bool" where
  "wellformed g =
     (allocated g \<and> param_node (block g) < next_node g \<and>
      (\<forall>v\<in>set (graph_inputs g). v < next_unique g) \<and>
      (\<forall>n\<in>set (ids_b (block g)). \<forall>v\<in>set (outputs (nodes g n)).
         v < next_unique g \<and> node_of (vals g v) = n))"

text \<open>The tensors among the first \<open>num_activation_inputs\<close> inputs of the graph, and the
  tensors among the outputs of the nodes of all blocks that are not constants.\<close>

definition activationInputs :: "graph \<Rightarrow> nat \<Rightarrow> vid list" where
  "activationInputs g num_activation_inputs =
     filter (\<lambda>v. isSubtypeOfTensor (type_of (vals g v)))
       (take num_activation_inputs (graph_inputs g))"

definition observableOutputs :: "graph \<Rightarrow> vid list" where
  "observableOutputs g =
     filter (\<lambda>v. isSubtypeOfTensor (type_of (vals g v)))
       (concat (map (\<lambda>n. outputs (nodes g n))
                 (filter (outputsNeedToBeObserved g) (ids_b (block g)))))"

text \<open>The values that \<^verbatim>\<open>InsertObserverNodes\<close> observes, in the order in which it creates
  their observers: the inputs of the first loop, then the values of
  \<^verbatim>\<open>values_to_observe\<close> that are tensors.\<close>

definition observedValues :: "graph \<Rightarrow> nat \<Rightarrow> vid list" where
  "observedValues g num_activation_inputs =
     activationInputs g num_activation_inputs @
     filter (\<lambda>v. isSubtypeOfTensor (type_of (vals g v))) (collectBlocks g {} [block g] [])"

lemma first_node_linked: "inBlockList g (first_node g)"
  by (cases "block g"; cases "blk_nodes (block g)")
    (simp_all add: inBlockList_def linked_def first_node_def)

lemma map_nth_take: "n \<le> length xs \<Longrightarrow> map (\<lambda>i. xs ! i) [0..<n] = take n xs"
  by (rule nth_equalityI) simp_all

lemma collected_values:
  assumes "v \<in> set (collectBlocks g ofi [block g] [])"
  shows "\<exists>n\<in>set (ids_b (block g)). v \<in> set (outputs (nodes g n))"
proof -
  from assms obtain n where "n \<in> set (observeOrder g ofi [block g])"
    and v: "v \<in> set (outputs (nodes g n))"
    unfolding collectBlocks_values by auto
  then have "n \<in> set (ids_b (block g))"
    using observeOrder_subset [of g ofi "[block g]"] by auto
  with v show ?thesis
    by blast
qed

lemma InsertObserverNodes_eq:
  assumes wf: "wellformed g" and t: "tmpl < next_node g" and n: "num \<le> length (graph_inputs g)"
  shows "\<exists>g'. InsertObserverNodes g tmpl num = (Inr (), g') \<and>
     observers_for tmpl g (observedValues g num) g' \<and>
     (namesFree tmpl g (observedValues g num) \<longrightarrow>
      observer_names tmpl g (observedValues g num) g')"
proof -
  define vs where "vs = collectBlocks g {} [block g] []"
  define A where "A = activationInputs g num"
  define L where "L = filter (\<lambda>v. isSubtypeOfTensor (type_of (vals g v))) vs"
  have a: "allocated g" and p: "param_node (block g) < next_node g"
    and gi: "\<forall>v\<in>set (graph_inputs g). v < next_unique g"
    and out: "\<forall>n\<in>set (ids_b (block g)). \<forall>v\<in>set (outputs (nodes g n)).
         v < next_unique g \<and> node_of (vals g v) = n"
    using wf by (simp_all add: wellformed_def)
  have idx: "\<forall>idx\<in>set [0..<num]. graph_inputs g ! idx < next_unique g"
    using gi n by simp
  have A: "filter (\<lambda>v. isSubtypeOfTensor (type_of (vals g v)))
      (map (\<lambda>idx. graph_inputs g ! idx) [0..<num]) = A"
    using n by (simp only: A_def activationInputs_def map_nth_take)
  obtain ofi g1 where run1: "observeInputs tmpl (first_node g) [0..<num] {} g = (Inr ofi, g1)"
    and obs1: "observers_for tmpl g A g1"
    and nam1: "namesFree tmpl g A \<longrightarrow> observer_names tmpl g A g1"
    and a1: "allocated g1" and mono1: "\<forall>i. inBlockList g i \<longrightarrow> inBlockList g1 i"
    and c1: "collectBlocks g1 ofi [block g1] [] = vs"
    unfolding vs_def
    using observeInputs_eq [OF a first_node_linked t p idx, of "{}"] unfolding A by blast
  have nn1: "next_node g \<le> next_node g1" and nu1: "next_unique g \<le> next_unique g1"
    and ov1: "\<forall>x<next_unique g. node_of (vals g1 x) = node_of (vals g x) \<and>
         type_of (vals g1 x) = type_of (vals g x)"
    using obs1 by (simp_all add: observers_for_def)
  have v0: "v < next_unique g \<and> inBlockList g (node_of (vals g v))" if "v \<in> set vs" for v
  proof -
    from that obtain k where k: "k \<in> set (ids_b (block g))" and "v \<in> set (outputs (nodes g k))"
      unfolding vs_def using collected_values by blast
    with out have "v < next_unique g" and "node_of (vals g v) = k"
      by blast+
    moreover have "inBlockList g k"
      using a k by (rule ids_allocated)
    ultimately show ?thesis
      by simp
  qed
  have v1: "\<forall>v\<in>set vs. v < next_unique g1 \<and> inBlockList g1 (node_of (vals g1 v))"
  proof
    fix v
    assume "v \<in> set vs"
    then have "v < next_unique g" and "inBlockList g (node_of (vals g v))"
      using v0 by blast+
    then show "v < next_unique g1 \<and> inBlockList g1 (node_of (vals g1 v))"
      using nu1 ov1 mono1 by simp
  qed
  have t1: "tmpl < next_node g1"
    using t nn1 by simp
  have f: "filter (\<lambda>v. isSubtypeOfTensor (type_of (vals g1 v))) vs = L"
    unfolding L_def using v0 ov1 by (intro filter_cong refl) simp
  obtain g' where run2: "forEach (observeValue tmpl) vs g1 = (Inr (), g')"
    and obs2: "observers_for tmpl g1 L g'"
    and nam2: "namesFree tmpl g1 L \<longrightarrow> observer_names tmpl g1 L g'"
    using observeValues_eq [OF a1 t1 v1] unfolding f by blast
  have Lu: "\<forall>w\<in>set L. w < next_unique g"
    using v0 by (simp add: L_def)
  have o: "observedValues g num = A @ L"
    by (simp only: observedValues_def vs_def A_def L_def)
  have e1: "observers_for tmpl g (A @ L) g'"
    using obs1 obs2 t Lu by (rule observers_for_append)
  have e2: "observer_names tmpl g (A @ L) g'" if h: "namesFree tmpl g (A @ L)"
  proof -
    have "namesFree tmpl g A"
      using h by (rule namesFree_prefix)
    with nam1 have n1: "observer_names tmpl g A g1"
      by simp
    have "namesFree tmpl g1 L"
      using h obs1 n1 t Lu by (rule namesFree_suffix)
    with nam2 have "observer_names tmpl g1 L g'"
      by simp
    with obs1 obs2 n1 show ?thesis
      using t Lu by (rule observer_names_append)
  qed
  have "InsertObserverNodes g tmpl num = (Inr (), g')"
    using n by (simp add: InsertObserverNodes_def Let_def andThen_def run1 c1 run2
        del: collectBlocks.simps)
  then show ?thesis
    unfolding o using e1 e2 by blast
qed

lemma mset_concat_filter:
  assumes "mset xs = mset ys"
  shows "mset (concat (map f (filter P xs))) = mset (concat (map f (filter P ys)))"
proof -
  have "mset (concat (map f (filter P zs))) =
      sum_mset (image_mset (\<lambda>x. mset (f x)) (filter_mset P (mset zs)))" for zs
    by (induction zs) simp_all
  then show ?thesis
    using assms by simp
qed

text \<open>When the constants carry no sub-block, the traversal collects the outputs of the nodes
  of all blocks that are not constants.\<close>

lemma observedValues_mset:
  assumes "\<forall>t\<in>set (trees_b (block g)). \<not> outputsNeedToBeObserved g (nt_id t) \<longrightarrow> nt_blocks t = []"
  shows "mset (observedValues g num) = mset (activationInputs g num) + mset (observableOutputs g)"
proof -
  have "\<forall>b\<in>set [block g]. \<forall>t\<in>set (trees_b b). skipped g {} (nt_id t) \<longrightarrow> nt_blocks t = []"
    using assms by (simp add: skipped_def)
  then have o: "observeOrder g {} [block g] = visitOrder [block g]"
    by (rule observeOrder_visitOrder)
  have m: "mset (visitOrder [block g]) = mset (ids_b (block g))"
    using visitOrder_mset [of "[block g]"] by (simp del: visitOrder.simps)
  have s: "(\<lambda>n. \<not> skipped g {} n) = outputsNeedToBeObserved g"
    by (simp add: skipped_def)
  have "mset (collectBlocks g {} [block g] []) =
      mset (concat (map (\<lambda>n. outputs (nodes g n))
        (filter (outputsNeedToBeObserved g) (ids_b (block g)))))"
    unfolding collectBlocks_values o s append_Nil using m by (rule mset_concat_filter)
  then have "mset (filter (\<lambda>v. isSubtypeOfTensor (type_of (vals g v)))
        (collectBlocks g {} [block g] [])) = mset (observableOutputs g)"
    by (simp only: observableOutputs_def mset_filter)
  then show ?thesis
    by (simp only: observedValues_def mset_append)
qed

lemma observers_for_at:
  assumes "observers_for tmpl g vs g'" and "m < length vs"
  shows "kind (nodes g' (next_node g + 2 * m)) = ''prim::Constant''"
    and "kind (nodes g' (Suc (next_node g + 2 * m))) = kind (nodes g tmpl)"
    and "inputs (nodes g' (Suc (next_node g + 2 * m))) =
      inputs (nodes g tmpl) @ [vs ! m] @ outputs (nodes g' (next_node g + 2 * m))"
    and "length (outputs (nodes g' (Suc (next_node g + 2 * m)))) =
      Suc (length (outputs (nodes g tmpl)))"
    and "node_of (vals g' (last (outputs (nodes g' (Suc (next_node g + 2 * m)))))) =
      Suc (next_node g + 2 * m)"
    and "type_of (vals g' (last (outputs (nodes g' (Suc (next_node g + 2 * m)))))) =
      type_of (vals g (vs ! m))"
    and "next_unique g \<le> last (outputs (nodes g' (Suc (next_node g + 2 * m))))"
    and "last (outputs (nodes g' (Suc (next_node g + 2 * m)))) =
      Suc (next_unique g + (length (outputs (nodes g tmpl)) + 2) * m) +
        length (outputs (nodes g tmpl))"
  using assms by (simp_all add: observers_for_def del: upt_Suc)


lemma observedValues_tensor:
  assumes "m < length (observedValues g num)"
  shows "isSubtypeOfTensor (type_of (vals g (observedValues g num ! m)))"
proof -
  have "\<forall>v\<in>set (observedValues g num). isSubtypeOfTensor (type_of (vals g v))"
    by (auto simp: observedValues_def activationInputs_def)
  with assms show ?thesis
    by simp
qed

subsection \<open>The example graphs\<close>

lemma shared_graph_facts:
  "next_node shared_graph = 5" "next_unique shared_graph = 3"
  "node_of (vals shared_graph (Suc 0)) = Suc 0"
  "inputs (nodes shared_graph 2) = [1]" "inputs (nodes shared_graph 3) = [1, 2]"
  "inNodes (block shared_graph) 1" "inBlockList shared_graph 1"
  by (simp_all add: shared_graph_def inNodes_def inBlockList_def linked_def)




lemma fanout_graph_scan:
  "scanBlocks fanout_graph [block fanout_graph]
     \<lparr>quantInputs = [], quantOutputs = [], valueLookup = {}\<rparr> =
   \<lparr>quantInputs = [(0, 1)], quantOutputs = [1], valueLookup = {1}\<rparr>"
  by (simp add: fanout_graph_def checkIfNodeQuantizable_def quantnodeLookup_def
      isSubtypeOfTensor_def relu_def neg_def)

lemma fanout_graph_allocated: "allocated fanout_graph"
  by (auto simp: allocated_def inBlockList_def linked_def fanout_graph_def)

lemma fanout_graph_pass:
  "InsertQuantDequantNodes fanout_graph =
     (Inr (), inputRewritten 0 1 (outputRewritten 1 fanout_graph))"
proof -
  have "inBlockList fanout_graph 1" and "node_of (vals fanout_graph 1) = 1"
    and "next_unique fanout_graph = 5"
    by (simp_all add: fanout_graph_def inBlockList_def linked_def)
  then show ?thesis
    using InsertQuantDequantNodes_eq [OF fanout_graph_allocated fanout_graph_scan [symmetric]]
    by simp
qed





lemma constant_graph_wellformed: "wellformed constant_graph"
  by (simp add: wellformed_def allocated_def inBlockList_def linked_def graph_inputs_def
      constant_graph_def)


section \<open>The quantize and dequantize rewrites\<close>

text \<open>
  Claim C1. The claim says that a value is rewritten on the output side at most once in
  one run of \<^verbatim>\<open>InsertQuantDequantNodes\<close>, also when it is an input of a node and an
  output of a block at the same time. When the output of a quantizable node feeds three
  nodes and is no output of the block, one quantize node consumes it and the three nodes
  consume the output of the one dequantize node (first part). In \<open>shared_graph\<close> the value 1
  is an input of node 2 and an output of the block: it is recorded twice, the loop over
  the block outputs of lines 279 to 284 does not look it up in \<^verbatim>\<open>valueLookup\<close>, and the
  pass inserts two pairs for it. The second pair (nodes 9 and 10) is spliced between the
  value and the first pair (nodes 5 and 6): node 9 consumes the value, node 5 consumes the
  output of node 10.
\<close>

theorem InsertQuantDequantNodes_rewrites_shared_output_twice:
  "(case InsertQuantDequantNodes fanout_graph of
      (r, g') \<Rightarrow> r = Inr () \<and>
        [i \<leftarrow> [0..<next_node g']. kind (nodes g' i) = ''aten::quantize_linear'' \<and>
                                    hd (inputs (nodes g' i)) = 1] = [6] \<and>
        outputs (nodes g' 7) = [6] \<and> inputs (nodes g' 2) = [6] \<and>
        inputs (nodes g' 3) = [6] \<and> inputs (nodes g' 4) = [6]) \<and>
   quantOutputs (scanBlocks shared_graph [block shared_graph]
     \<lparr>quantInputs = [], quantOutputs = [], valueLookup = {}\<rparr>) = [1, 1] \<and>
   (case InsertQuantDequantNodes shared_graph of
      (r, g') \<Rightarrow> r = Inr () \<and>
        [i \<leftarrow> [0..<next_node g']. kind (nodes g' i) = ''aten::quantize_linear''] = [5, 9, 13] \<and>
        inputs (nodes g' 13) = [0, 13, 14] \<and> inputs (nodes g' 14) = [11] \<and>
        outputs (nodes g' 14) = [12] \<and> inputs (nodes g' 1) = [12] \<and>
        outputs (nodes g' 1) = [1] \<and>
        inputs (nodes g' 9) = [1, 9, 10] \<and> outputs (nodes g' 9) = [7] \<and>
        kind (nodes g' 10) = ''aten::dequantize'' \<and>
        inputs (nodes g' 10) = [7] \<and> outputs (nodes g' 10) = [8] \<and>
        inputs (nodes g' 5) = [8, 5, 6] \<and> outputs (nodes g' 5) = [3] \<and>
        kind (nodes g' 6) = ''aten::dequantize'' \<and>
        inputs (nodes g' 6) = [3] \<and> outputs (nodes g' 6) = [4] \<and>
        inputs (nodes g' 2) = [4] \<and> inputs (nodes g' 3) = [4, 2])"
proof -
  have n: "next_node shared_graph = 5" "next_unique shared_graph = 3"
    "next_node fanout_graph = 6" "next_unique fanout_graph = 5"
    by (simp_all add: shared_graph_def fanout_graph_def)
  have k: "kind (nodes shared_graph i) \<noteq> ''aten::quantize_linear''"
    "kind (nodes fanout_graph i) \<noteq> ''aten::quantize_linear''" for i
    by (simp_all add: shared_graph_def fanout_graph_def relu_def neg_def empty_node_def)
  have i: "inputs (nodes shared_graph (Suc 0)) = [0]" "inputs (nodes shared_graph 2) = [1]"
    "inputs (nodes shared_graph 3) = [1, 2]" "outputs (nodes shared_graph (Suc 0)) = [1]"
    "inputs (nodes fanout_graph 2) = [1]" "inputs (nodes fanout_graph 3) = [1]"
    "inputs (nodes fanout_graph 4) = [1]"
    by (simp_all add: shared_graph_def fanout_graph_def)
  have up: "[0..<17] = [0, 1, 2, 3, 4, 5, 6, 7, 8, 9, 10, 11, 12, 13, 14, 15, 16]"
    "[0..<14] = [0, 1, 2, 3, 4, 5, 6, 7, 8, 9, 10, 11, 12, 13]"
    by (simp_all add: upt_rec)
  have fan: "case InsertQuantDequantNodes fanout_graph of
      (r, g') \<Rightarrow> r = Inr () \<and>
        [i \<leftarrow> [0..<next_node g']. kind (nodes g' i) = ''aten::quantize_linear'' \<and>
                                    hd (inputs (nodes g' i)) = 1] = [6] \<and>
        outputs (nodes g' 7) = [6] \<and> inputs (nodes g' 2) = [6] \<and>
        inputs (nodes g' 3) = [6] \<and> inputs (nodes g' 4) = [6]"
    by (simp add: fanout_graph_pass
        inputRewritten_kind outputRewritten_kind inputRewritten_inputs outputRewritten_inputs
        inputRewritten_outputs outputRewritten_outputs inputRewritten_sel outputRewritten_sel
        n k i up)
  have scan: "quantOutputs (scanBlocks shared_graph [block shared_graph]
      \<lparr>quantInputs = [], quantOutputs = [], valueLookup = {}\<rparr>) = [1, 1]"
    by (simp only: shared_graph_scan worklists.simps)
  have sh: "case InsertQuantDequantNodes shared_graph of
      (r, g') \<Rightarrow> r = Inr () \<and>
        [i \<leftarrow> [0..<next_node g']. kind (nodes g' i) = ''aten::quantize_linear''] = [5, 9, 13] \<and>
        inputs (nodes g' 13) = [0, 13, 14] \<and> inputs (nodes g' 14) = [11] \<and>
        outputs (nodes g' 14) = [12] \<and> inputs (nodes g' 1) = [12] \<and>
        outputs (nodes g' 1) = [1] \<and>
        inputs (nodes g' 9) = [1, 9, 10] \<and> outputs (nodes g' 9) = [7] \<and>
        kind (nodes g' 10) = ''aten::dequantize'' \<and>
        inputs (nodes g' 10) = [7] \<and> outputs (nodes g' 10) = [8] \<and>
        inputs (nodes g' 5) = [8, 5, 6] \<and> outputs (nodes g' 5) = [3] \<and>
        kind (nodes g' 6) = ''aten::dequantize'' \<and>
        inputs (nodes g' 6) = [3] \<and> outputs (nodes g' 6) = [4] \<and>
        inputs (nodes g' 2) = [4] \<and> inputs (nodes g' 3) = [4, 2]"
    by (simp add: shared_graph_pass
        inputRewritten_kind outputRewritten_kind inputRewritten_inputs outputRewritten_inputs
        inputRewritten_outputs outputRewritten_outputs inputRewritten_sel outputRewritten_sel
        n k i up)
  from fan scan sh show ?thesis
    by (intro conjI)
qed







text \<open>
  Claim C9. After \<^verbatim>\<open>addQuantDeQuantNodes\<close> for the value \<open>v\<close> the first input of the new
  quantize node is \<open>v\<close> itself, which is not the output of the dequantize node; the
  quantize node is the only node of the graph that consumes \<open>v\<close>; and among the four new
  nodes the only consumptions are the quantize node consuming the two constants and the
  dequantize node consuming the quantize node, so there is no cycle among them.
\<close>

theorem addQuantDeQuantNodes_quantize_consumes_original:
  assumes prod: "inBlockList g (node_of (vals g v))" and alloc: "allocated g"
    and val: "v < next_unique g"
  shows "(let quant = next_node g; dequant = Suc (next_node g);
            scale = Suc (Suc (next_node g)); zeropoint = Suc (Suc (Suc (next_node g)))
        in \<exists>g'. addQuantDeQuantNodes v g = (Inr (), g') \<and>
             hd (inputs (nodes g' quant)) = v \<and>
             v \<notin> set (outputs (nodes g' dequant)) \<and>
             (\<forall>i. v \<in> set (inputs (nodes g' i)) \<longrightarrow> i = quant) \<and>
             (\<forall>a\<in>{quant, dequant, scale, zeropoint}.
                \<forall>b\<in>{quant, dequant, scale, zeropoint}.
                  consumes g' a b \<longrightarrow>
                    a = quant \<and> (b = scale \<or> b = zeropoint) \<or> a = dequant \<and> b = quant))"
proof -
  define g' where "g' = outputRewritten v g"
  define q where "q = next_node g"
  have s: "addQuantDeQuantNodes v g = (Inr (), g')"
    unfolding g'_def using prod alloc by (rule addQuantDeQuantNodes_eq)
  have nov: "v \<notin> set (map (\<lambda>x. if x = v then Suc (next_unique g) else x) xs)" for xs
    using val by auto
  have ins: "inputs (nodes g' q) = [v, Suc (Suc (next_unique g)), Suc (Suc (Suc (next_unique g)))]"
    "inputs (nodes g' (Suc q)) = [next_unique g]"
    "inputs (nodes g' (Suc (Suc q))) = []"
    "inputs (nodes g' (Suc (Suc (Suc q)))) = []"
    by (simp_all add: g'_def q_def outputRewritten_inputs)
  have outs: "outputs (nodes g' q) = [next_unique g]"
    "outputs (nodes g' (Suc q)) = [Suc (next_unique g)]"
    "outputs (nodes g' (Suc (Suc q))) = [Suc (Suc (next_unique g))]"
    "outputs (nodes g' (Suc (Suc (Suc q)))) = [Suc (Suc (Suc (next_unique g)))]"
    by (simp_all add: g'_def q_def outputRewritten_outputs)
  have sole: "i = q" if "v \<in> set (inputs (nodes g' i))" for i
  proof (rule ccontr)
    assume "i \<noteq> q"
    then have "v \<notin> set (inputs (nodes g' i))"
      using val nov by (simp add: g'_def q_def outputRewritten_inputs)
    with that show False by simp
  qed
  have cyc: "consumes g' a b \<longrightarrow>
      a = q \<and> (b = Suc (Suc q) \<or> b = Suc (Suc (Suc q))) \<or> a = Suc q \<and> b = q"
    if "a \<in> {q, Suc q, Suc (Suc q), Suc (Suc (Suc q))}"
      and "b \<in> {q, Suc q, Suc (Suc q), Suc (Suc (Suc q))}" for a b
  proof -
    from that(1) consider "a = q" | "a = Suc q" | "a = Suc (Suc q)" | "a = Suc (Suc (Suc q))"
      by auto
    then show ?thesis
    proof cases
      case 1
      from that(2) val show ?thesis
        by (auto simp: consumes_def 1 ins outs)
    next
      case 2
      from that(2) val show ?thesis
        by (auto simp: consumes_def 2 ins outs)
    next
      case 3
      then show ?thesis by (simp add: consumes_def ins)
    next
      case 4
      then show ?thesis by (simp add: consumes_def ins)
    qed
  qed
  have "hd (inputs (nodes g' q)) = v" and "v \<notin> set (outputs (nodes g' (Suc q)))"
    using val by (simp_all add: ins outs)
  with s sole cyc show ?thesis
    unfolding Let_def q_def [symmetric] by blast
qed

theorem addQuantDeQuantNodes_quantize_consumes_original_witness:
  "inBlockList shared_graph (node_of (vals shared_graph 1)) \<and> allocated shared_graph \<and>
   1 < next_unique shared_graph \<and>
   (\<exists>g'. addQuantDeQuantNodes 1 shared_graph = (Inr (), g') \<and>
      hd (inputs (nodes g' 5)) = 1 \<and> (\<forall>i. 1 \<in> set (inputs (nodes g' i)) \<longrightarrow> i = 5) \<and>
      \<not> consumes g' 5 6)"
proof -
  have h1: "inBlockList shared_graph (node_of (vals shared_graph 1))"
    by (simp add: shared_graph_def inBlockList_def linked_def)
  have h3: "1 < next_unique shared_graph"
    by (simp add: shared_graph_def)
  from addQuantDeQuantNodes_quantize_consumes_original [OF h1 shared_graph_allocated h3]
  obtain g' where "addQuantDeQuantNodes 1 shared_graph = (Inr (), g')"
    and "hd (inputs (nodes g' 5)) = 1" and "\<forall>i. 1 \<in> set (inputs (nodes g' i)) \<longrightarrow> i = 5"
    and "\<not> consumes g' 5 6"
    by (auto simp: Let_def shared_graph_facts)
  with h1 shared_graph_allocated h3 show ?thesis
    by blast
qed

section \<open>The traversal of nested blocks\<close>



section \<open>The entry points that are not implemented\<close>

text \<open>
  Claim C6. For every graph, each of \<^verbatim>\<open>PropagateQuantInfo\<close>, \<^verbatim>\<open>QuantLinting\<close> and
  \<^verbatim>\<open>FoldQuantNodesIntoInputsOutputs\<close> raises the runtime error "Pass not implemented
  yet!", whatever the graph is, and the graph after the call is the graph before it: the
  call never returns normally.
\<close>

theorem stubs_raise_not_implemented:
  "PropagateQuantInfo g = (Inl (RuntimeError ''Pass not implemented yet!''), g) \<and>
   QuantLinting g = (Inl (RuntimeError ''Pass not implemented yet!''), g) \<and>
   FoldQuantNodesIntoInputsOutputs g = (Inl (RuntimeError ''Pass not implemented yet!''), g) \<and>
   fst (PropagateQuantInfo g) \<noteq> Inr () \<and> fst (QuantLinting g) \<noteq> Inr () \<and>
   fst (FoldQuantNodesIntoInputsOutputs g) \<noteq> Inr ()"
  by (simp add: PropagateQuantInfo_def QuantLinting_def FoldQuantNodesIntoInputsOutputs_def)

section \<open>The precondition of the observer pass\<close>

text \<open>
  Claim C7. When the requested number of activation inputs is strictly greater than the
  number of inputs of the graph, \<^verbatim>\<open>InsertObserverNodes\<close> fails with the assertion failure
  of line 142, whatever the graph and the observer node are.
\<close>

theorem InsertObserverNodes_too_many_inputs:
  assumes "length (graph_inputs g) < num_activation_inputs"
  shows "fst (InsertObserverNodes g observer_node num_activation_inputs) = Inl AssertionFailure"
  using assms by (simp add: InsertObserverNodes_def)

theorem InsertObserverNodes_too_many_inputs_witness:
  "length (graph_inputs shared_graph) < 2 \<and>
   fst (InsertObserverNodes shared_graph 4 2) = Inl AssertionFailure"
proof -
  have h: "length (graph_inputs shared_graph) < 2"
    by (simp add: graph_inputs_def shared_graph_def)
  show ?thesis
    using h InsertObserverNodes_too_many_inputs [OF h, of 4] by simp
qed

text \<open>
  Claim C10. When \<^verbatim>\<open>InsertObserverNodes\<close> fails because the requested number of
  activation inputs exceeds the number of inputs of the graph, the graph after the call is
  the graph before it: the check of line 142 comes before the first mutation.
\<close>

theorem InsertObserverNodes_failure_keeps_graph:
  assumes "length (graph_inputs g) < num_activation_inputs"
  shows "InsertObserverNodes g observer_node num_activation_inputs = (Inl AssertionFailure, g)"
  using assms by (simp add: InsertObserverNodes_def)

theorem InsertObserverNodes_failure_keeps_graph_witness:
  "length (graph_inputs shared_graph) < 3 \<and>
   InsertObserverNodes shared_graph 4 3 = (Inl AssertionFailure, shared_graph)"
proof -
  have h: "length (graph_inputs shared_graph) < 3"
    by (simp add: graph_inputs_def shared_graph_def)
  show ?thesis
    using h InsertObserverNodes_failure_keeps_graph [OF h, of 4] by simp
qed

section \<open>The observers that the pass inserts\<close>

text \<open>
  Claim C5. Let \<open>g\<close> be a graph that satisfies the invariants of the IR and whose constants
  carry no sub-block, \<open>k\<close> the number of tensors among its first \<open>num_activation_inputs\<close>
  inputs and \<open>j\<close> the number of tensors among the outputs of the nodes of all blocks that
  are not constants. Then \<^verbatim>\<open>InsertObserverNodes\<close> returns, it creates \<open>2 * (k + j)\<close> nodes,
  which are, for each of the \<open>k + j\<close> values, a constant and after it a clone of the
  observer node; the values that the clones read are these \<open>k + j\<close> values, each as often
  as it occurs; and each clone has one output more than the observer node, the last one,
  which is a new value of the clone whose type is the type of the value it observes.
\<close>

theorem InsertObserverNodes_creates_observers:
  assumes "wellformed g" and "observer_node < next_node g"
    and "num_activation_inputs \<le> length (graph_inputs g)"
    and "\<forall>t\<in>set (trees_b (block g)).
       \<not> outputsNeedToBeObserved g (nt_id t) \<longrightarrow> nt_blocks t = []"
  shows "\<exists>g'. InsertObserverNodes g observer_node num_activation_inputs = (Inr (), g') \<and>
     mset (observedValues g num_activation_inputs) =
       mset (activationInputs g num_activation_inputs) + mset (observableOutputs g) \<and>
     next_node g' = next_node g +
       2 * (length (activationInputs g num_activation_inputs) + length (observableOutputs g)) \<and>
     (\<forall>m<length (activationInputs g num_activation_inputs) + length (observableOutputs g).
        kind (nodes g' (next_node g + 2 * m)) = ''prim::Constant'' \<and>
        kind (nodes g' (Suc (next_node g + 2 * m))) = kind (nodes g observer_node) \<and>
        inputs (nodes g' (Suc (next_node g + 2 * m))) =
          inputs (nodes g observer_node) @ [observedValues g num_activation_inputs ! m] @
          outputs (nodes g' (next_node g + 2 * m)) \<and>
        length (outputs (nodes g' (Suc (next_node g + 2 * m)))) =
          Suc (length (outputs (nodes g observer_node))) \<and>
        next_unique g \<le> last (outputs (nodes g' (Suc (next_node g + 2 * m)))) \<and>
        node_of (vals g' (last (outputs (nodes g' (Suc (next_node g + 2 * m)))))) =
          Suc (next_node g + 2 * m) \<and>
        type_of (vals g' (last (outputs (nodes g' (Suc (next_node g + 2 * m)))))) =
          type_of (vals g (observedValues g num_activation_inputs ! m)) \<and>
        isSubtypeOfTensor (type_of (vals g (observedValues g num_activation_inputs ! m))))"
proof -
  define vs where "vs = observedValues g num_activation_inputs"
  define K where
    "K = length (activationInputs g num_activation_inputs) + length (observableOutputs g)"
  obtain g' where run: "InsertObserverNodes g observer_node num_activation_inputs = (Inr (), g')"
    and obs: "observers_for observer_node g vs g'"
    unfolding vs_def using InsertObserverNodes_eq [OF assms(1-3)] by blast
  have m: "mset vs =
      mset (activationInputs g num_activation_inputs) + mset (observableOutputs g)"
    unfolding vs_def using assms(4) by (rule observedValues_mset)
  have "size (mset vs) = K"
    unfolding m K_def by simp
  then have l: "length vs = K"
    by simp
  have n: "next_node g' = next_node g + 2 * K"
    using obs by (simp add: observers_for_def l)
  have c: "kind (nodes g' (next_node g + 2 * i)) = ''prim::Constant'' \<and>
        kind (nodes g' (Suc (next_node g + 2 * i))) = kind (nodes g observer_node) \<and>
        inputs (nodes g' (Suc (next_node g + 2 * i))) =
          inputs (nodes g observer_node) @ [vs ! i] @ outputs (nodes g' (next_node g + 2 * i)) \<and>
        length (outputs (nodes g' (Suc (next_node g + 2 * i)))) =
          Suc (length (outputs (nodes g observer_node))) \<and>
        next_unique g \<le> last (outputs (nodes g' (Suc (next_node g + 2 * i)))) \<and>
        node_of (vals g' (last (outputs (nodes g' (Suc (next_node g + 2 * i)))))) =
          Suc (next_node g + 2 * i) \<and>
        type_of (vals g' (last (outputs (nodes g' (Suc (next_node g + 2 * i)))))) =
          type_of (vals g (vs ! i)) \<and>
        isSubtypeOfTensor (type_of (vals g (vs ! i)))" if "i < K" for i
  proof -
    have i: "i < length vs"
      using that l by simp
    then have "isSubtypeOfTensor (type_of (vals g (vs ! i)))"
      unfolding vs_def by (rule observedValues_tensor)
    then show ?thesis
      using observers_for_at [OF obs i] by simp
  qed
  show ?thesis
    using run m n c unfolding vs_def K_def by blast
qed

theorem InsertObserverNodes_creates_observers_witness:
  "wellformed constant_graph \<and> 5 < next_node constant_graph \<and>
   2 \<le> length (graph_inputs constant_graph) \<and>
   filter (\<lambda>t. \<not> outputsNeedToBeObserved constant_graph (nt_id t) \<and> nt_blocks t \<noteq> [])
     (trees_b (block constant_graph)) = [] \<and>
   activationInputs constant_graph 2 = [0] \<and> observableOutputs constant_graph = [3, 4] \<and>
   (\<exists>g'. InsertObserverNodes constant_graph 5 2 = (Inr (), g') \<and> next_node g' = 12 \<and>
      kind (nodes g' 6) = ''prim::Constant'' \<and> kind (nodes g' 7) = ''prim::PythonOp'' \<and>
      inputs (nodes g' 7) = 0 # outputs (nodes g' 6) \<and>
      kind (nodes g' 8) = ''prim::Constant'' \<and> kind (nodes g' 9) = ''prim::PythonOp'' \<and>
      inputs (nodes g' 9) = 3 # outputs (nodes g' 8) \<and>
      kind (nodes g' 10) = ''prim::Constant'' \<and> kind (nodes g' 11) = ''prim::PythonOp'' \<and>
      inputs (nodes g' 11) = 4 # outputs (nodes g' 10) \<and>
      length (outputs (nodes g' 11)) = 1 \<and>
      type_of (vals g' (last (outputs (nodes g' 7)))) = DimensionedTensorType 4 \<and>
      type_of (vals g' (last (outputs (nodes g' 11)))) = CompleteTensorType [2, 3])"
proof -
  have h2: "5 < next_node constant_graph" "2 \<le> length (graph_inputs constant_graph)"
    by (simp_all add: constant_graph_def graph_inputs_def)
  have h4: "\<forall>t\<in>set (trees_b (block constant_graph)).
       \<not> outputsNeedToBeObserved constant_graph (nt_id t) \<longrightarrow> nt_blocks t = []"
    by (simp add: constant_graph_def)
  have h5: "filter (\<lambda>t. \<not> outputsNeedToBeObserved constant_graph (nt_id t) \<and> nt_blocks t \<noteq> [])
     (trees_b (block constant_graph)) = []"
    by (simp add: constant_graph_def)
  have v: "activationInputs constant_graph 2 = [0]" "observableOutputs constant_graph = [3, 4]"
    "observedValues constant_graph 2 = [0, 3, 4]"
    by (simp_all add: activationInputs_def observableOutputs_def observedValues_def
        graph_inputs_def outputsNeedToBeObserved_def isSubtypeOfTensor_def relu_def neg_def
        constant_graph_def)
  have f: "next_node constant_graph = 6" "kind (nodes constant_graph 5) = ''prim::PythonOp''"
    "inputs (nodes constant_graph 5) = []" "outputs (nodes constant_graph 5) = []"
    "type_of (vals constant_graph 0) = DimensionedTensorType 4"
    "type_of (vals constant_graph 4) = CompleteTensorType [2, 3]"
    by (simp_all add: constant_graph_def)
  obtain g' where run: "InsertObserverNodes constant_graph 5 2 = (Inr (), g')"
    and n: "next_node g' = 12"
    and c: "\<forall>m<3. kind (nodes g' (6 + 2 * m)) = ''prim::Constant'' \<and>
        kind (nodes g' (Suc (6 + 2 * m))) = ''prim::PythonOp'' \<and>
        inputs (nodes g' (Suc (6 + 2 * m))) = ([0, 3, 4] ! m) # outputs (nodes g' (6 + 2 * m)) \<and>
        length (outputs (nodes g' (Suc (6 + 2 * m)))) = 1 \<and>
        type_of (vals g' (last (outputs (nodes g' (Suc (6 + 2 * m)))))) =
          type_of (vals constant_graph ([0, 3, 4] ! m))"
    using InsertObserverNodes_creates_observers [OF constant_graph_wellformed h2 h4]
    unfolding v f by auto
  from c [rule_format, of 0] c [rule_format, of 1] c [rule_format, of 2]
  have "kind (nodes g' 6) = ''prim::Constant'' \<and> kind (nodes g' 7) = ''prim::PythonOp'' \<and>
      inputs (nodes g' 7) = 0 # outputs (nodes g' 6) \<and>
      kind (nodes g' 8) = ''prim::Constant'' \<and> kind (nodes g' 9) = ''prim::PythonOp'' \<and>
      inputs (nodes g' 9) = 3 # outputs (nodes g' 8) \<and>
      kind (nodes g' 10) = ''prim::Constant'' \<and> kind (nodes g' 11) = ''prim::PythonOp'' \<and>
      inputs (nodes g' 11) = 4 # outputs (nodes g' 10) \<and>
      length (outputs (nodes g' 11)) = 1 \<and>
      type_of (vals g' (last (outputs (nodes g' 7)))) = DimensionedTensorType 4 \<and>
      type_of (vals g' (last (outputs (nodes g' 11)))) = CompleteTensorType [2, 3]"
    by (simp add: f)
  with run n have "\<exists>g'. InsertObserverNodes constant_graph 5 2 = (Inr (), g') \<and>
      next_node g' = 12 \<and>
      kind (nodes g' 6) = ''prim::Constant'' \<and> kind (nodes g' 7) = ''prim::PythonOp'' \<and>
      inputs (nodes g' 7) = 0 # outputs (nodes g' 6) \<and>
      kind (nodes g' 8) = ''prim::Constant'' \<and> kind (nodes g' 9) = ''prim::PythonOp'' \<and>
      inputs (nodes g' 9) = 3 # outputs (nodes g' 8) \<and>
      kind (nodes g' 10) = ''prim::Constant'' \<and> kind (nodes g' 11) = ''prim::PythonOp'' \<and>
      inputs (nodes g' 11) = 4 # outputs (nodes g' 10) \<and>
      length (outputs (nodes g' 11)) = 1 \<and>
      type_of (vals g' (last (outputs (nodes g' 7)))) = DimensionedTensorType 4 \<and>
      type_of (vals g' (last (outputs (nodes g' 11)))) = CompleteTensorType [2, 3]"
    by blast
  with constant_graph_wellformed h2 h5 v(1,2) show ?thesis
    by (intro conjI)
qed





end
